theory Spec2Isabelle
  imports Main
begin

section \<open>Vote ledger: \<open>Database.cast_vote\<close>\<close>

text \<open>
  A document of the \<open>votes\<close> collection, \<open>{_id, up, down, voters}\<close>. The collection is
  written by \<open>cast_vote\<close> only, whose \<open>$set\<close> stores all three fields, so a stored document
  always carries them; the defaults of \<open>doc.get\<close> are those of the fresh document.
  Message ids and user ids are Python ints; \<open>str\<close> is injective on them, so the keys
  \<open>str(msg_id)\<close> and \<open>str(uid)\<close> are modelled by the ints themselves.
\<close>

record vote_doc =
  up :: int
  down :: int
  voters :: "int \<rightharpoonup> string"

type_synonym votes_coll = "int \<rightharpoonup> vote_doc"

text \<open>The document \<open>cast_vote\<close> works on after \<open>find_one\<close>: the stored one, or the fresh one.\<close>

definition doc_or_new :: "vote_doc option \<Rightarrow> vote_doc" where
  "doc_or_new found =
     (case found of
        None \<Rightarrow> \<lparr>up = 0, down = 0, voters = Map.empty\<rparr>
      | Some doc \<Rightarrow> doc)"

text \<open>
  The part of \<open>cast_vote\<close> between its two awaits: from the document read by \<open>find_one\<close> it
  computes the returned pair and, unless the vote repeats the recorded choice, the
  document to write. The returned dict is modelled by its \<open>up\<close> and \<open>down\<close> entries.
\<close>

definition vote_compute ::
  "vote_doc option \<Rightarrow> int \<Rightarrow> string \<Rightarrow> (bool \<times> int \<times> int) \<times> vote_doc option" where
  "vote_compute found uid direction =
     (let doc = doc_or_new found;
          vs = voters doc;
          prev = vs uid
      in if prev = Some direction then ((False, up doc, down doc), None)
         else
           let u0 = up doc;
               d0 = down doc;
               u1 = (if prev = Some ''up'' then max 0 (u0 - 1) else u0);
               d1 = (if prev = Some ''down'' then max 0 (d0 - 1) else d0);
               u2 = (if direction = ''up'' then u1 + 1 else u1);
               d2 = (if direction = ''down'' then d1 + 1 else d1)
           in ((True, u2, d2),
               Some \<lparr>up = u2, down = d2, voters = vs(uid \<mapsto> direction)\<rparr>))"

text \<open>\<open>cast_vote\<close> run without interruption: \<open>find_one\<close>, the computation, \<open>update_one\<close>.\<close>

definition cast_vote ::
  "votes_coll \<Rightarrow> int \<Rightarrow> int \<Rightarrow> string \<Rightarrow> (bool \<times> int \<times> int) \<times> votes_coll" where
  "cast_vote votes msg_id uid direction =
     (case vote_compute (votes msg_id) uid direction of
        (res, None) \<Rightarrow> (res, votes)
      | (res, Some doc') \<Rightarrow> (res, votes(msg_id \<mapsto> doc')))"

text \<open>A sequence of calls \<open>(msg_id, uid, direction)\<close>, each run to completion.\<close>

fun cast_votes :: "(int \<times> int \<times> string) list \<Rightarrow> votes_coll \<Rightarrow> votes_coll" where
  "cast_votes [] votes = votes"
| "cast_votes ((msg_id, uid, direction) # cs) votes =
     cast_votes cs (snd (cast_vote votes msg_id uid direction))"

text \<open>The voters of the calls made on one item.\<close>

definition voters_on :: "int \<Rightarrow> (int \<times> int \<times> string) list \<Rightarrow> int set" where
  "voters_on msg_id calls = (fst \<circ> snd) ` set (filter (\<lambda>c. fst c = msg_id) calls)"

text \<open>What a reader of the collection sees for an item: its counts and a voter's choice.\<close>

definition up_count :: "votes_coll \<Rightarrow> int \<Rightarrow> int" where
  "up_count votes msg_id = up (doc_or_new (votes msg_id))"

definition down_count :: "votes_coll \<Rightarrow> int \<Rightarrow> int" where
  "down_count votes msg_id = down (doc_or_new (votes msg_id))"

definition choice :: "votes_coll \<Rightarrow> int \<Rightarrow> (int \<rightharpoonup> string)" where
  "choice votes msg_id = voters (doc_or_new (votes msg_id))"

text \<open>
  The consistency of a vote document: finitely many voters, and each count is the number
  of voters whose recorded choice is that direction.
\<close>

definition vote_inv :: "vote_doc \<Rightarrow> bool" where
  "vote_inv doc \<longleftrightarrow>
     finite (dom (voters doc)) \<and>
     up doc = int (card {u. voters doc u = Some ''up''}) \<and>
     down doc = int (card {u. voters doc u = Some ''down''})"

definition item_inv :: "votes_coll \<Rightarrow> int \<Rightarrow> bool" where
  "item_inv votes m \<longleftrightarrow> vote_inv (doc_or_new (votes m))"


subsection \<open>Interleaved calls of \<open>cast_vote\<close>\<close>

text \<open>
  \<open>cast_vote\<close> awaits the store twice: \<open>find_one\<close> reads the document into the caller's
  memory, \<open>update_one\<close> later writes the counts and voters computed from that copy. Each
  await is a point where another call may run. A call in progress is therefore in one of
  three stages: not started, holding the document it read, or returned.
\<close>

datatype vote_task =
  VoteStart int int string
| VoteRead int int string "vote_doc option"
| VoteDone bool int int

text \<open>One store operation of a call: the read, then the computation and the write.\<close>

fun vote_step :: "votes_coll \<Rightarrow> vote_task \<Rightarrow> votes_coll \<times> vote_task" where
  "vote_step votes (VoteStart msg_id uid direction) =
     (votes, VoteRead msg_id uid direction (votes msg_id))"
| "vote_step votes (VoteRead msg_id uid direction found) =
     (case vote_compute found uid direction of
        ((changed, u, d), None) \<Rightarrow> (votes, VoteDone changed u d)
      | ((changed, u, d), Some doc') \<Rightarrow> (votes(msg_id \<mapsto> doc'), VoteDone changed u d))"
| "vote_step votes (VoteDone changed u d) = (votes, VoteDone changed u d)"

text \<open>
  A schedule names, step by step, which of the calls in progress performs its next store
  operation.
\<close>

fun run_schedule :: "nat list \<Rightarrow> votes_coll \<times> vote_task list \<Rightarrow> votes_coll \<times> vote_task list" where
  "run_schedule [] st = st"
| "run_schedule (i # sched) (votes, tasks) =
     (if i < length tasks
      then (case vote_step votes (tasks ! i) of
              (votes', t') \<Rightarrow> run_schedule sched (votes', tasks[i := t']))
      else run_schedule sched (votes, tasks))"


section \<open>Content filter: \<open>contains_profanity\<close>\<close>

text \<open>
  A Python \<open>str\<close> is a sequence of code points and \<open>len\<close> counts them. The model's
  characters are the code points U+0000 to U+00FF, one \<open>char\<close> each; text with code points
  beyond that range is outside the model. The three character classes below are Python's
  on that range: \<open>str.isspace\<close> (used by \<open>strip\<close>), the class \<open>\w\<close> of \<open>re\<close> on a \<open>str\<close>
  pattern (alphanumeric or underscore), and \<open>str.lower\<close>.
\<close>

definition is_space :: "char \<Rightarrow> bool" where
  "is_space c =
     (let n = (of_char c :: nat)
      in (9 \<le> n \<and> n \<le> 13) \<or> (28 \<le> n \<and> n \<le> 32) \<or> n = 133 \<or> n = 160)"

definition is_word_char :: "char \<Rightarrow> bool" where
  "is_word_char c =
     (let n = (of_char c :: nat)
      in (48 \<le> n \<and> n \<le> 57) \<or> (65 \<le> n \<and> n \<le> 90) \<or> n = 95 \<or> (97 \<le> n \<and> n \<le> 122) \<or>
         n = 170 \<or> n = 178 \<or> n = 179 \<or> n = 181 \<or> n = 185 \<or> n = 186 \<or>
         (188 \<le> n \<and> n \<le> 190) \<or> (192 \<le> n \<and> n \<le> 214) \<or> (216 \<le> n \<and> n \<le> 246) \<or>
         (248 \<le> n \<and> n \<le> 255))"

definition lower_char :: "char \<Rightarrow> char" where
  "lower_char c =
     (let n = (of_char c :: nat)
      in if (65 \<le> n \<and> n \<le> 90) \<or> (192 \<le> n \<and> n \<le> 214) \<or> (216 \<le> n \<and> n \<le> 222)
         then char_of (n + 32) else c)"

definition lower :: "string \<Rightarrow> string" where
  "lower s = map lower_char s"

definition strip :: "string \<Rightarrow> string" where
  "strip s = rev (dropWhile is_space (rev (dropWhile is_space s)))"

text \<open>
  \<open>re.findall(r"\w+", s)\<close>: scanning from the left, each maximal run of word characters
  is one match.
\<close>

function findall_words :: "string \<Rightarrow> string list" where
  "findall_words [] = []"
| "findall_words (c # cs) =
     (if is_word_char c
      then takeWhile is_word_char (c # cs) # findall_words (dropWhile is_word_char cs)
      else findall_words cs)"
  by pat_completeness auto
termination
  by (relation "measure length") (auto simp: less_Suc_eq_le length_dropWhile_le)

definition PROFANITY_SET :: "string set" where
  "PROFANITY_SET =
     {''idiot'', ''stupid'', ''dumb'', ''moron'', ''retard'', ''imbecile'', ''fool'',
      ''bastard'', ''asshole'', ''bitch'', ''crap'', ''fuck'', ''shit'', ''piss'',
      ''cock'', ''dick'', ''pussy'', ''whore'', ''slut'', ''cunt'', ''nigger'',
      ''faggot'', ''retarded'', ''loser'', ''scum'', ''trash'', ''garbage'',
      ''yenya'', ''leba'', ''ahiya'', ''wusha'', ''dedeb'', ''goblata'',
      ''shilegna'', ''baldeg'', ''gmatam'', ''neger'', ''wend'',
      ''gaafii'', ''waraana''}"

definition contains_profanity :: "string \<Rightarrow> bool" where
  "contains_profanity text = list_ex (\<lambda>w. w \<in> PROFANITY_SET) (findall_words (lower text))"


section \<open>Rate limiter: \<open>Database.rate_limit_ok\<close>\<close>

text \<open>
  A \<open>datetime\<close> is modelled by its number of microseconds on the time line (an int);
  \<open>isoformat\<close> and \<open>fromisoformat\<close> are inverse on naive datetimes, so the stored strings
  are modelled by the times themselves. \<open>datetime.now()\<close> is a parameter of the call.
\<close>

definition MAX_REVIEWS_PER_HOUR :: int where
  "MAX_REVIEWS_PER_HOUR = 5"

definition hour :: int where
  "hour = 3600000000"

type_synonym ratelimit_coll = "int \<rightharpoonup> int list"

definition rate_limit_ok :: "ratelimit_coll \<Rightarrow> int \<Rightarrow> int \<Rightarrow> bool \<times> ratelimit_coll" where
  "rate_limit_ok rl uid now =
     (let cutoff = now - hour;
          timestamps = (case rl uid of None \<Rightarrow> [] | Some stored \<Rightarrow> stored);
          recent = filter (\<lambda>t. t > cutoff) timestamps
      in if int (length recent) \<ge> MAX_REVIEWS_PER_HOUR then (False, rl)
         else (True, rl(uid \<mapsto> recent @ [now])))"

text \<open>Calls of one user at the given times, each run to completion; the answers in order.\<close>

fun admit_all :: "ratelimit_coll \<Rightarrow> int \<Rightarrow> int list \<Rightarrow> bool list \<times> ratelimit_coll" where
  "admit_all rl uid [] = ([], rl)"
| "admit_all rl uid (now # nows) =
     (case rate_limit_ok rl uid now of
        (ok, rl') \<Rightarrow> (case admit_all rl' uid nows of (oks, rl'') \<Rightarrow> (ok # oks, rl'')))"

text \<open>
  The calls fall within one trailing window: every earlier call time is still inside the
  last hour at every later call.
\<close>

fun within_window :: "int list \<Rightarrow> bool" where
  "within_window [] = True"
| "within_window (t # later) = (list_all (\<lambda>t'. t > t' - hour) later \<and> within_window later)"

text \<open>The timestamps stored for a user, as \<open>rate_limit_ok\<close> reads them.\<close>

definition timestamps_of :: "ratelimit_coll \<Rightarrow> int \<Rightarrow> int list" where
  "timestamps_of rl uid = (case rl uid of None \<Rightarrow> [] | Some stored \<Rightarrow> stored)"

text \<open>
  The timestamps of a user that a check at time \<open>now\<close> retains, and the number of further
  submissions the user may make at that time.
\<close>

definition retained :: "ratelimit_coll \<Rightarrow> int \<Rightarrow> int \<Rightarrow> int list" where
  "retained rl uid now = filter (\<lambda>t. t > now - hour) (timestamps_of rl uid)"

definition allowance :: "ratelimit_coll \<Rightarrow> int \<Rightarrow> int \<Rightarrow> nat" where
  "allowance rl uid now = nat (MAX_REVIEWS_PER_HOUR - int (length (retained rl uid now)))"

section \<open>Sessions and drafts\<close>

record Draft =
  draft_id :: string
  stream :: string
  year :: string
  subject :: string
  teacher :: string
  rating :: int
  content :: string
  is_additional :: bool
  parent_msg_id :: "int option"
  ts :: int

record Session =
  sess_uid :: int
  draft :: "Draft option"
  drafts :: "Draft list"
  subject_page :: int
  current_subjects :: "string list"

text \<open>\<open>Draft()\<close>: the id (eight characters of a fresh uuid) and the time are parameters.\<close>

definition Draft_init :: "string \<Rightarrow> int \<Rightarrow> Draft" where
  "Draft_init fresh_id now =
     \<lparr>draft_id = fresh_id, stream = [], year = [], subject = [], teacher = [], rating = 0,
      content = [], is_additional = False, parent_msg_id = None, ts = now\<rparr>"

definition Session_init :: "int \<Rightarrow> Session" where
  "Session_init uid =
     \<lparr>sess_uid = uid, draft = None, drafts = [], subject_page = 0, current_subjects = []\<rparr>"

definition new_draft :: "string \<Rightarrow> int \<Rightarrow> Session \<Rightarrow> Session" where
  "new_draft fresh_id now sess =
     sess\<lparr>draft := Some (Draft_init fresh_id now), subject_page := 0, current_subjects := []\<rparr>"

definition commit_draft :: "Session \<Rightarrow> Session" where
  "commit_draft sess =
     (case draft sess of
        None \<Rightarrow> sess
      | Some d \<Rightarrow> sess\<lparr>drafts := drafts sess @ [d], draft := None\<rparr>)"

section \<open>The bot's state\<close>

text \<open>
  An entry of the \<open>contexts\<close> collection is a dict. Pending entries and resume entries
  share the keys \<open>stream\<close>, \<open>year\<close>, \<open>subject\<close>, \<open>teacher\<close>; the keys only pending entries
  have are optional fields. \<open>ctx_parent_msg_id\<close> is what \<open>data.get("parent_msg_id")\<close>
  returns: \<open>None\<close> for a missing key and for a stored \<open>None\<close> alike.
\<close>

record ctx_data =
  ctx_stream :: string
  ctx_year :: string
  ctx_subject :: string
  ctx_teacher :: string
  ctx_rating :: "int option"
  ctx_content :: "string option"
  ctx_parent_msg_id :: "int option"
  ctx_is_additional :: "bool option"
  ctx_user_id :: "int option"

record review =
  rv_teacher :: string
  rv_subject :: string
  rv_stream :: string
  rv_year :: string
  rv_rating :: int
  rv_content :: string
  rv_timestamp :: int
  rv_msg_id :: int

text \<open>
  Outbound calls to the chat transport are logged in the order they are made; message
  texts are modelled by the template they are built from and the values put into it.
\<close>

datatype notice =
    ERR_BANNED
  | WELCOME
  | WELCOME_DEEP string string
  | LINK_EXPIRED
  | RATING_SET int
  | ERR_SHORT_REVIEW
  | ERR_PROFANITY_BANNED
  | ERR_PROFANITY_STRIKE int
  | SUCCESS_DRAFT_SAVED "Draft list"
  | ERR_NO_DATA
  | TRANSMITTING
  | ERR_RATE_LIMIT int
  | ADMIN_REVIEW string int Draft
  | SUCCESS_SUBMITTED
  | PENDING_NOT_FOUND
  | CHANNEL_POST bool string string int string string "int option"
  | CHANNEL_POST_FAILED
  | REVIEW_APPROVED
  | APPROVED_AND_POSTED

datatype out_call = Send int notice

record bot =
  sessions :: "int \<rightharpoonup> Session"
  banned_cache :: "int set"
  bans :: "int set"
  contexts :: "string \<rightharpoonup> ctx_data"
  violations :: "int \<rightharpoonup> int"
  ratelimits :: ratelimit_coll
  reviews :: "review list"
  members_cache :: "int set"
  members :: "int set"
  outbox :: "out_call list"

datatype conv_state =
  ST_STREAM | ST_YEAR | ST_SUBJECT | ST_TEACHER | ST_RATING | ST_CONTENT | ST_BATCH | ST_MANAGE
| END

datatype py_error = AttributeError | KeyError

definition ADMIN_ID :: int where
  "ADMIN_ID = 5113670239"

definition CHANNEL_ID :: int where
  "CHANNEL_ID = - 1001003881172658"

definition MAX_PROFANITY_STRIKES :: int where
  "MAX_PROFANITY_STRIKES = 3"

definition send :: "int \<Rightarrow> notice \<Rightarrow> bot \<Rightarrow> bot" where
  "send chat n st = st\<lparr>outbox := outbox st @ [Send chat n]\<rparr>"

text \<open>\<open>session(uid)\<close>: the user's session, created and stored when there is none.\<close>

definition session :: "int \<Rightarrow> bot \<Rightarrow> Session \<times> bot" where
  "session uid st =
     (case sessions st uid of
        None \<Rightarrow> (Session_init uid, st\<lparr>sessions := (sessions st)(uid \<mapsto> Session_init uid)\<rparr>)
      | Some sess \<Rightarrow> (sess, st))"

definition sessions_pop :: "int \<Rightarrow> bot \<Rightarrow> bot" where
  "sessions_pop uid st = st\<lparr>sessions := (sessions st)(uid := None)\<rparr>"

definition is_banned :: "int \<Rightarrow> bot \<Rightarrow> bool" where
  "is_banned uid st = (uid \<in> banned_cache st)"

definition ban :: "int \<Rightarrow> bot \<Rightarrow> bot" where
  "ban uid st = st\<lparr>banned_cache := insert uid (banned_cache st), bans := insert uid (bans st)\<rparr>"

definition set_ctx :: "string \<Rightarrow> ctx_data \<Rightarrow> bot \<Rightarrow> bot" where
  "set_ctx key data st = st\<lparr>contexts := (contexts st)(key \<mapsto> data)\<rparr>"

definition get_ctx :: "string \<Rightarrow> bot \<Rightarrow> ctx_data option" where
  "get_ctx key st = contexts st key"

text \<open>
  \<open>add_violation\<close>: \<open>find_one_and_update\<close> with \<open>$inc\<close> and upsert, returning the
  document after the update, so the returned count is the stored one.
\<close>

definition add_violation :: "int \<Rightarrow> bot \<Rightarrow> int \<times> bot" where
  "add_violation uid st =
     (let count = (case violations st uid of None \<Rightarrow> 1 | Some n \<Rightarrow> n + 1)
      in (count, st\<lparr>violations := (violations st)(uid \<mapsto> count)\<rparr>))"


section \<open>Submission: \<open>do_submit\<close>\<close>

definition pending_key :: "Draft \<Rightarrow> string" where
  "pending_key d = ''pending_'' @ draft_id d"

definition pending_data :: "int \<Rightarrow> Draft \<Rightarrow> ctx_data" where
  "pending_data uid d =
     \<lparr>ctx_stream = stream d, ctx_year = year d, ctx_subject = subject d,
      ctx_teacher = teacher d, ctx_rating = Some (rating d), ctx_content = Some (content d),
      ctx_parent_msg_id = parent_msg_id d, ctx_is_additional = Some (is_additional d),
      ctx_user_id = Some uid\<rparr>"

text \<open>The pending entries written for a list of drafts, in order.\<close>

definition pending_all :: "int \<Rightarrow> Draft list \<Rightarrow> (string \<rightharpoonup> ctx_data) \<Rightarrow> (string \<rightharpoonup> ctx_data)" where
  "pending_all uid ds ctxs = fold (\<lambda>d c. c(pending_key d \<mapsto> pending_data uid d)) ds ctxs"

text \<open>
  The loop of \<open>do_submit\<close> over the committed drafts. \<open>clock i\<close> is \<open>datetime.now()\<close> at the
  rate-limit check of the draft at position \<open>i\<close>; \<open>admin_ok d\<close> tells whether sending
  draft \<open>d\<close> to the admin succeeds (an exception there is caught and \<open>submitted\<close> is not
  incremented); \<open>display\<close> is the name the \<open>try\<close> block around \<open>get_chat\<close> ends with.
  The first refused check sends the notice with the current \<open>submitted\<close> and leaves the loop.
\<close>

fun submit_loop ::
  "string \<Rightarrow> (Draft \<Rightarrow> bool) \<Rightarrow> (nat \<Rightarrow> int) \<Rightarrow> int \<Rightarrow> nat \<Rightarrow> Draft list \<Rightarrow> int \<Rightarrow> bot \<Rightarrow> bot" where
  "submit_loop display admin_ok clock uid i [] submitted st = st"
| "submit_loop display admin_ok clock uid i (d # ds) submitted st =
     (case rate_limit_ok (ratelimits st) uid (clock i) of
        (False, rl') \<Rightarrow> send uid (ERR_RATE_LIMIT submitted) st
      | (True, rl') \<Rightarrow>
          submit_loop display admin_ok clock uid (Suc i) ds
            (if admin_ok d then submitted + 1 else submitted)
            (send ADMIN_ID (ADMIN_REVIEW display uid d)
               (set_ctx (pending_key d) (pending_data uid d) (st\<lparr>ratelimits := rl'\<rparr>))))"

definition do_submit ::
  "string \<Rightarrow> (Draft \<Rightarrow> bool) \<Rightarrow> (nat \<Rightarrow> int) \<Rightarrow> int \<Rightarrow> bool \<Rightarrow> bot \<Rightarrow> conv_state \<times> bot" where
  "do_submit display admin_ok clock uid has_update st =
     (case session uid st of
        (sess, st0) \<Rightarrow>
          if drafts sess = []
          then (END, if has_update then send uid ERR_NO_DATA st0 else st0)
          else
            let st1 = (if has_update then send uid TRANSMITTING st0 else st0);
                st2 = submit_loop display admin_ok clock uid 0 (drafts sess) 0 st1;
                st3 = sessions_pop uid st2
            in (END, send uid SUCCESS_SUBMITTED st3))"

section \<open>Conversation handlers\<close>

text \<open>
  \<open>cmd_start\<close>. The \<open>users\<close> collection written by \<open>db.register\<close> is not part of the
  modelled state. The id and creation time of the draft it may create are parameters.
\<close>

definition cmd_start :: "string \<Rightarrow> int \<Rightarrow> int \<Rightarrow> string list \<Rightarrow> bot \<Rightarrow> conv_state \<times> bot" where
  "cmd_start fresh_id now uid args st =
     (if is_banned uid st then (END, send uid ERR_BANNED st)
      else
        (case session uid (st\<lparr>sessions := (sessions st)(uid \<mapsto> Session_init uid)\<rparr>) of
           (sess, st1) \<Rightarrow>
             (case args of
                [] \<Rightarrow> (END, send uid WELCOME st1)
              | arg # _ \<Rightarrow>
                  if take 4 arg = ''add_''
                  then
                    (case get_ctx (drop 4 arg) st1 of
                       Some data \<Rightarrow>
                         let d = (Draft_init fresh_id now)
                                   \<lparr>stream := ctx_stream data, year := ctx_year data,
                                    subject := ctx_subject data, teacher := ctx_teacher data,
                                    parent_msg_id := ctx_parent_msg_id data,
                                    is_additional := True\<rparr>;
                             sess1 = (new_draft fresh_id now sess)\<lparr>draft := Some d\<rparr>
                         in (ST_RATING,
                             send uid (WELCOME_DEEP (teacher d) (subject d))
                               (st1\<lparr>sessions := (sessions st1)(uid \<mapsto> sess1)\<rparr>))
                     | None \<Rightarrow> (END, send uid WELCOME (send uid LINK_EXPIRED st1)))
                  else (END, send uid WELCOME st1))))"

text \<open>\<open>cb_rating\<close>; the number parsed from the callback data is the parameter \<open>r\<close>.\<close>

definition cb_rating :: "int \<Rightarrow> int \<Rightarrow> bot \<Rightarrow> (py_error + conv_state) \<times> bot" where
  "cb_rating uid r st =
     (case session uid st of
        (sess, st0) \<Rightarrow>
          (case draft sess of
             None \<Rightarrow> (Inl AttributeError, st0)
           | Some d \<Rightarrow>
               (Inr ST_CONTENT,
                send uid (RATING_SET r)
                  (st0\<lparr>sessions := (sessions st0)(uid \<mapsto> sess\<lparr>draft := Some (d\<lparr>rating := r\<rparr>)\<rparr>)\<rparr>))))"

text \<open>
  \<open>handler_content\<close>, the handler of the state \<open>ST_CONTENT\<close>. Setting the content of a
  missing draft raises \<open>AttributeError\<close>.
\<close>

definition handler_content ::
  "string \<Rightarrow> (Draft \<Rightarrow> bool) \<Rightarrow> (nat \<Rightarrow> int) \<Rightarrow> int \<Rightarrow> string \<Rightarrow> bot
     \<Rightarrow> (py_error + conv_state) \<times> bot" where
  "handler_content display admin_ok clock uid message_text st =
     (let text = strip message_text
      in case session uid st of
           (sess, st0) \<Rightarrow>
             if length text < 30 then (Inr ST_CONTENT, send uid ERR_SHORT_REVIEW st0)
             else if contains_profanity text then
               (case add_violation uid st0 of
                  (strikes, st1) \<Rightarrow>
                    if strikes \<ge> MAX_PROFANITY_STRIKES
                    then (Inr END, sessions_pop uid (send uid ERR_PROFANITY_BANNED (ban uid st1)))
                    else (Inr ST_CONTENT, send uid (ERR_PROFANITY_STRIKE strikes) st1))
             else
               (case draft sess of
                  None \<Rightarrow> (Inl AttributeError, st0)
                | Some d \<Rightarrow>
                    let sess1 = commit_draft (sess\<lparr>draft := Some (d\<lparr>content := text\<rparr>)\<rparr>);
                        st1 = st0\<lparr>sessions := (sessions st0)(uid \<mapsto> sess1)\<rparr>
                    in if drafts sess1 \<noteq> [] \<and> is_additional (last (drafts sess1))
                       then (case do_submit display admin_ok clock uid True st1 of
                               (next_state, st2) \<Rightarrow> (Inr next_state, st2))
                       else (Inr ST_BATCH, send uid (SUCCESS_DRAFT_SAVED (drafts sess1)) st1)))"

section \<open>Moderation: \<open>_approve\<close>\<close>

text \<open>
  \<open>_approve\<close>. Parameters: the fresh token \<open>ctx_uuid\<close>, the outcome \<open>sent\<close> of posting to
  the channel (the new message's id, or \<open>None\<close> when the call raised), and the time.
  \<open>next_parent\<close> follows Python's truth test: a parent id that is \<open>None\<close> or \<open>0\<close> is
  replaced by the new message's id.
\<close>

definition resume_data :: "ctx_data \<Rightarrow> int \<Rightarrow> ctx_data" where
  "resume_data data next_parent =
     \<lparr>ctx_stream = ctx_stream data, ctx_year = ctx_year data, ctx_subject = ctx_subject data,
      ctx_teacher = ctx_teacher data, ctx_rating = None, ctx_content = None,
      ctx_parent_msg_id = Some next_parent, ctx_is_additional = None, ctx_user_id = None\<rparr>"

definition approve :: "string \<Rightarrow> int option \<Rightarrow> int \<Rightarrow> int \<Rightarrow> string \<Rightarrow> bot \<Rightarrow> py_error + bot" where
  "approve ctx_uuid sent now user_id rev_id st =
     (case get_ctx (''pending_'' @ rev_id) st of
        None \<Rightarrow> Inr (send ADMIN_ID PENDING_NOT_FOUND st)
      | Some data \<Rightarrow>
          (case ctx_rating data of
             None \<Rightarrow> Inl KeyError
           | Some rating_v \<Rightarrow>
               (case ctx_content data of
                  None \<Rightarrow> Inl KeyError
                | Some content_v \<Rightarrow>
                    let parent = ctx_parent_msg_id data;
                        additional = (case ctx_is_additional data of None \<Rightarrow> False | Some b \<Rightarrow> b);
                        st1 = send CHANNEL_ID
                                (CHANNEL_POST additional (ctx_subject data) (ctx_teacher data)
                                   rating_v content_v rev_id parent) st
                    in (case sent of
                          None \<Rightarrow> Inr (send ADMIN_ID CHANNEL_POST_FAILED st1)
                        | Some message_id \<Rightarrow>
                            let next_parent =
                                  (case parent of
                                     None \<Rightarrow> message_id
                                   | Some p \<Rightarrow> if p \<noteq> 0 then p else message_id);
                                st2 = set_ctx ctx_uuid (resume_data data next_parent) st1;
                                st3 = st2\<lparr>reviews := reviews st2 @
                                        [\<lparr>rv_teacher = ctx_teacher data, rv_subject = ctx_subject data,
                                          rv_stream = ctx_stream data, rv_year = ctx_year data,
                                          rv_rating = rating_v, rv_content = content_v,
                                          rv_timestamp = now, rv_msg_id = message_id\<rparr>]\<rparr>;
                                st4 = st3\<lparr>members_cache := insert user_id (members_cache st3),
                                          members := insert user_id (members st3)\<rparr>
                            in Inr (send ADMIN_ID APPROVED_AND_POSTED
                                      (send user_id REVIEW_APPROVED st4))))))"


section \<open>Start-up state\<close>

text \<open>The bot right after start-up on an empty database: no sessions, empty collections.\<close>

definition bot_init :: bot where
  "bot_init =
     \<lparr>sessions = Map.empty, banned_cache = {}, bans = {}, contexts = Map.empty,
      violations = Map.empty, ratelimits = Map.empty, reviews = [], members_cache = {},
      members = {}, outbox = []\<rparr>"


section \<open>Follow-up threads\<close>

text \<open>
  The draft \<open>cmd_start\<close> seeds from a resume entry: category, subject, teacher and thread
  parent are taken from the entry, and the draft is marked as a follow-up.
\<close>

definition seeded_draft :: "string \<Rightarrow> int \<Rightarrow> ctx_data \<Rightarrow> Draft" where
  "seeded_draft fresh_id now data =
     (Draft_init fresh_id now)
       \<lparr>stream := ctx_stream data, year := ctx_year data, subject := ctx_subject data,
        teacher := ctx_teacher data, parent_msg_id := ctx_parent_msg_id data,
        is_additional := True\<rparr>"

text \<open>
  One follow-up, from the deep link to the publication: the events of one user and the
  moderator's approval, with the values the environment supplies (the id of the draft,
  the time, the outcome of the transport calls, the fresh token and the id of the channel
  post).
\<close>

record followup =
  fu_uid :: int
  fu_draft_id :: string
  fu_now :: int
  fu_rating :: int
  fu_text :: string
  fu_display :: string
  fu_admin_ok :: "Draft \<Rightarrow> bool"
  fu_token :: string
  fu_message_id :: int

text \<open>
  The user opens the deep link \<open>add_<token>\<close>, taps a rating, sends the body; the
  follow-up is submitted on its own and the moderator approves it. Each handler runs only
  when the conversation is in its state; the result is \<open>None\<close> when the conversation
  leaves that path or the approval raises.
\<close>

definition followup_round :: "followup \<Rightarrow> string \<Rightarrow> bot \<Rightarrow> bot option" where
  "followup_round f token st =
     (case cmd_start (fu_draft_id f) (fu_now f) (fu_uid f) [''add_'' @ token] st of
        (s1, st1) \<Rightarrow>
          if s1 \<noteq> ST_RATING then None
          else
            (case cb_rating (fu_uid f) (fu_rating f) st1 of
               (s2, st2) \<Rightarrow>
                 if s2 \<noteq> Inr ST_CONTENT then None
                 else
                   (case handler_content (fu_display f) (fu_admin_ok f) (\<lambda>i. fu_now f)
                           (fu_uid f) (fu_text f) st2 of
                      (s3, st3) \<Rightarrow>
                        if s3 \<noteq> Inr END then None
                        else
                          (case approve (fu_token f) (Some (fu_message_id f)) (fu_now f)
                                  (fu_uid f) (fu_draft_id f) st3 of
                             Inl err \<Rightarrow> None
                           | Inr st4 \<Rightarrow> Some st4))))"

text \<open>
  A follow-up reaches the moderator when its body passes the filter and the user is within
  the rate limit; otherwise the conversation also ends, but nothing is submitted.
\<close>

definition reaches_moderator :: "followup \<Rightarrow> bot \<Rightarrow> bool" where
  "reaches_moderator f st =
     (\<not> contains_profanity (strip (fu_text f)) \<and>
      0 < allowance (ratelimits st) (fu_uid f) (fu_now f))"

text \<open>
  A chain of follow-ups: each one opens the link issued by the approval before it. The
  result is the last token issued and the final state.
\<close>

fun followups :: "followup list \<Rightarrow> string \<Rightarrow> bot \<Rightarrow> (string \<times> bot) option" where
  "followups [] token st = Some (token, st)"
| "followups (f # fs) token st =
     (if reaches_moderator f st
      then (case followup_round f token st of
              None \<Rightarrow> None
            | Some st' \<Rightarrow> followups fs (fu_token f) st')
      else None)"


section \<open>Properties of the vote ledger\<close>

lemma vote_inv_new: "vote_inv (doc_or_new None)"
  by (simp add: vote_inv_def doc_or_new_def)

lemma choice_set_upd:
  "{u. (vs(uid \<mapsto> d)) u = Some x} =
     (if d = x then insert uid {u. vs u = Some x} else {u. vs u = Some x} - {uid})"
  by auto

lemma finite_choice_set: "finite (dom vs) \<Longrightarrow> finite {u. vs u = Some x}"
  by (rule finite_subset[of _ "dom vs"]) auto

lemma card_choice_upd:
  assumes fin: "finite (dom vs)"
  shows "int (card {u. (vs(uid \<mapsto> d)) u = Some x}) =
           (if d = x then (if vs uid = Some x then int (card {u. vs u = Some x})
                           else int (card {u. vs u = Some x}) + 1)
            else (if vs uid = Some x then int (card {u. vs u = Some x}) - 1
                  else int (card {u. vs u = Some x})))"
proof -
  let ?A = "{u. vs u = Some x}"
  have finA: "finite ?A" using fin by (rule finite_choice_set)
  have eq: "{u. (vs(uid \<mapsto> d)) u = Some x} = (if d = x then insert uid ?A else ?A - {uid})"
    by (rule choice_set_upd)
  show ?thesis
  proof (cases "vs uid = Some x")
    case True
    then have mem: "uid \<in> ?A" by simp
    have pos: "card ?A > 0" using finA mem by (auto simp: card_gt_0_iff)
    have ins: "card (insert uid ?A) = card ?A" using mem by (simp add: insert_absorb)
    have del: "card (?A - {uid}) = card ?A - 1" using finA mem by simp
    show ?thesis unfolding eq using True pos ins del by (simp split: if_splits)
  next
    case False
    then have nmem: "uid \<notin> ?A" by simp
    have ins: "card (insert uid ?A) = card ?A + 1" using finA nmem by simp
    have del: "?A - {uid} = ?A" using nmem by blast
    show ?thesis unfolding eq using False ins del by (simp split: if_splits)
  qed
qed

lemma card_choice_pos:
  assumes "finite (dom vs)" and "vs uid = Some x"
  shows "1 \<le> int (card {u. vs u = Some x})"
proof -
  have "finite {u. vs u = Some x}" using assms(1) by (rule finite_choice_set)
  moreover have "uid \<in> {u. vs u = Some x}" using assms(2) by simp
  ultimately have "card {u. vs u = Some x} > 0" by (auto simp: card_gt_0_iff)
  then show ?thesis by simp
qed

lemma vote_compute_inv:
  assumes "vote_inv (doc_or_new found)"
    and "vote_compute found uid direction = (res, Some doc')"
  shows "vote_inv doc'"
proof -
  let ?doc = "doc_or_new found"
  let ?vs = "voters ?doc"
  have fin: "finite (dom ?vs)" using assms(1) by (simp add: vote_inv_def)
  have upc: "up ?doc = int (card {u. ?vs u = Some ''up''})" using assms(1) by (simp add: vote_inv_def)
  have dnc: "down ?doc = int (card {u. ?vs u = Some ''down''})" using assms(1) by (simp add: vote_inv_def)
  have ne: "?vs uid \<noteq> Some direction"
    using assms(2) by (auto simp: vote_compute_def Let_def split: if_splits)
  have vs': "voters doc' = ?vs(uid \<mapsto> direction)"
    using assms(2) ne by (auto simp: vote_compute_def Let_def)
  have up': "up doc' = (if direction = ''up'' then (if ?vs uid = Some ''up'' then max 0 (up ?doc - 1) else up ?doc) + 1
                              else (if ?vs uid = Some ''up'' then max 0 (up ?doc - 1) else up ?doc))"
    using assms(2) ne by (auto simp: vote_compute_def Let_def)
  have down': "down doc' = (if direction = ''down'' then (if ?vs uid = Some ''down'' then max 0 (down ?doc - 1) else down ?doc) + 1
                              else (if ?vs uid = Some ''down'' then max 0 (down ?doc - 1) else down ?doc))"
    using assms(2) ne by (auto simp: vote_compute_def Let_def)
  have f': "finite (dom (voters doc'))" using fin vs' by simp
  have u: "up doc' = int (card {u. voters doc' u = Some ''up''})"
    unfolding vs' card_choice_upd[OF fin] up' upc
    using ne card_choice_pos[OF fin, of uid "''up''"] by (auto split: if_splits)
  have d: "down doc' = int (card {u. voters doc' u = Some ''down''})"
    unfolding vs' card_choice_upd[OF fin] down' dnc
    using ne card_choice_pos[OF fin, of uid "''down''"] by (auto split: if_splits)
  show ?thesis unfolding vote_inv_def using f' u d by simp
qed


lemma cast_vote_other: "m' \<noteq> m \<Longrightarrow> snd (cast_vote votes m uid d) m' = votes m'"
  by (simp add: cast_vote_def split: prod.splits option.splits)

lemma cast_vote_inv:
  assumes "item_inv votes m'"
  shows "item_inv (snd (cast_vote votes m uid d)) m'"
proof (cases "m' = m")
  case False
  then show ?thesis using assms by (simp add: cast_vote_other item_inv_def)
next
  case True
  obtain res w where vc: "vote_compute (votes m) uid d = (res, w)" by (cases "vote_compute (votes m) uid d")
  show ?thesis
  proof (cases w)
    case None
    then show ?thesis using vc assms True by (simp add: cast_vote_def)
  next
    case (Some doc')
    have "vote_inv doc'" using vote_compute_inv[of "votes m" uid d res doc'] assms True vc Some
      by (simp add: item_inv_def)
    then show ?thesis using vc Some True by (simp add: cast_vote_def doc_or_new_def item_inv_def)
  qed
qed

lemma cast_votes_inv:
  "item_inv votes m \<Longrightarrow> item_inv (cast_votes cs votes) m"
proof (induction cs arbitrary: votes)
  case Nil
  then show ?case by simp
next
  case (Cons c cs)
  obtain m' u d where c: "c = (m', u, d)" by (cases c)
  show ?case unfolding c cast_votes.simps
    by (rule Cons.IH) (rule cast_vote_inv[OF Cons.prems])
qed

lemma reachable_inv: "item_inv (cast_votes cs Map.empty) m"
  by (rule cast_votes_inv) (simp add: vote_inv_new item_inv_def)

lemma cast_vote_voters:
  "voters (doc_or_new (snd (cast_vote votes m uid d) m)) = (voters (doc_or_new (votes m)))(uid \<mapsto> d)"
  by (auto simp: cast_vote_def vote_compute_def Let_def doc_or_new_def split: option.splits)

lemma cast_vote_choice:
  "choice (snd (cast_vote votes m uid d)) m' =
     (if m' = m then (choice votes m)(uid \<mapsto> d) else choice votes m')"
  by (auto simp: choice_def cast_vote_voters cast_vote_other)

lemma cast_votes_dom:
  "dom (choice (cast_votes cs votes) m) = dom (choice votes m) \<union> voters_on m cs"
proof (induction cs arbitrary: votes)
  case Nil
  then show ?case by (simp add: voters_on_def)
next
  case (Cons c cs)
  obtain m' u d where c: "c = (m', u, d)" by (cases c)
  show ?case unfolding c cast_votes.simps Cons.IH
    by (auto simp: cast_vote_choice voters_on_def)
qed

lemma cast_votes_ran:
  assumes "\<forall>c \<in> set cs. fst c = m \<longrightarrow> snd (snd c) \<in> D"
    and "ran (choice votes m) \<subseteq> D"
  shows "ran (choice (cast_votes cs votes) m) \<subseteq> D"
  using assms
proof (induction cs arbitrary: votes)
  case Nil
  then show ?case by simp
next
  case (Cons c cs)
  obtain m' u d where c: "c = (m', u, d)" by (cases c)
  have "ran (choice (snd (cast_vote votes m' u d)) m) \<subseteq> D"
  proof (cases "m = m'")
    case True
    then have "d \<in> D" using Cons.prems(1) c by simp
    then show ?thesis using Cons.prems(2) True
      by (auto simp: cast_vote_choice ran_def split: if_splits)
  next
    case False
    then show ?thesis using Cons.prems(2) by (simp add: cast_vote_choice)
  qed
  then show ?case unfolding c cast_votes.simps using Cons.prems(1)
    by (intro Cons.IH) (simp_all add: c)
qed

lemma two_bucket_card:
  assumes fin: "finite (dom vs)" and r: "ran vs \<subseteq> {a, b}" and ab: "a \<noteq> b"
  shows "card {u. vs u = Some a} + card {u. vs u = Some b} = card (dom vs)"
proof -
  have fa: "finite {u. vs u = Some a}" and fb: "finite {u. vs u = Some b}"
    using fin by (rule finite_choice_set)+
  have disj: "{u. vs u = Some a} \<inter> {u. vs u = Some b} = {}" using ab by auto
  have un: "{u. vs u = Some a} \<union> {u. vs u = Some b} = dom vs"
    using r by (auto simp: ran_def)
  have "card ({u. vs u = Some a} \<union> {u. vs u = Some b}) = card {u. vs u = Some a} + card {u. vs u = Some b}"
    using fa fb disj by (rule card_Un_disjoint)
  then show ?thesis using un by simp
qed

text \<open>
  Claim C1. Start from a collection with no record for the item and run any sequence of
  \<open>cast_vote\<close> calls whose directions on that item are \<open>up\<close> or \<open>down\<close> (calls on other
  items may be interleaved). After every prefix of the sequence, the item's up count plus its
  down count is the number of distinct voters who have voted on it so far; each count is the
  number of voters whose recorded choice is that direction, and no voter is in both; both
  counts are non-negative.
\<close>

theorem cast_vote_sequence_counts:
  assumes "votes msg_id = None"
    and "\<forall>c \<in> set calls. fst c = msg_id \<longrightarrow> snd (snd c) = ''up'' \<or> snd (snd c) = ''down''"
  shows "let after = cast_votes (take n calls) votes in
           up_count after msg_id + down_count after msg_id =
             int (card (voters_on msg_id (take n calls))) \<and>
           up_count after msg_id = int (card {u. choice after msg_id u = Some ''up''}) \<and>
           down_count after msg_id = int (card {u. choice after msg_id u = Some ''down''}) \<and>
           {u. choice after msg_id u = Some ''up''} \<inter> {u. choice after msg_id u = Some ''down''} = {} \<and>
           0 \<le> up_count after msg_id \<and> 0 \<le> down_count after msg_id"
proof -
  define after where "after = cast_votes (take n calls) votes"
  have inv0: "item_inv votes msg_id" using assms(1) by (simp add: vote_inv_new item_inv_def)
  have "item_inv after msg_id" unfolding after_def by (rule cast_votes_inv[OF inv0])
  then have inv: "vote_inv (doc_or_new (after msg_id))" by (simp add: item_inv_def)
  have ch0: "choice votes msg_id = Map.empty" using assms(1) by (simp add: choice_def doc_or_new_def)
  have valid: "\<forall>c \<in> set (take n calls). fst c = msg_id \<longrightarrow> snd (snd c) \<in> {''up'', ''down''}"
    using assms(2) by (auto dest: in_set_takeD)
  have ran: "ran (choice after msg_id) \<subseteq> {''up'', ''down''}"
    unfolding after_def by (rule cast_votes_ran[OF valid]) (simp add: ch0)
  have dom: "dom (choice after msg_id) = voters_on msg_id (take n calls)"
    unfolding after_def by (simp add: cast_votes_dom ch0)
  have fin: "finite (dom (choice after msg_id))" using inv by (simp add: vote_inv_def choice_def)
  have upc: "up_count after msg_id = int (card {u. choice after msg_id u = Some ''up''})"
    using inv by (simp add: vote_inv_def choice_def up_count_def)
  have dnc: "down_count after msg_id = int (card {u. choice after msg_id u = Some ''down''})"
    using inv by (simp add: vote_inv_def choice_def down_count_def)
  have sum: "card {u. choice after msg_id u = Some ''up''} + card {u. choice after msg_id u = Some ''down''}
              = card (dom (choice after msg_id))"
    by (rule two_bucket_card[OF fin ran]) simp
  have disj: "{u. choice after msg_id u = Some ''up''} \<inter> {u. choice after msg_id u = Some ''down''} = {}"
    by auto
  have tot: "up_count after msg_id + down_count after msg_id = int (card (voters_on msg_id (take n calls)))"
    using upc dnc sum dom by simp
  show ?thesis
    unfolding Let_def after_def[symmetric] using tot upc dnc disj by simp
qed

theorem cast_vote_sequence_counts_witness:
  "(Map.empty :: votes_coll) 7 = None \<and>
   list_all (\<lambda>c. fst c = (7::int) \<and> (snd (snd c) = ''up'' \<or> snd (snd c) = ''down''))
     [(7, 1, ''up''), (7, 2, ''down''), (7, 1, ''down''), (7, 1, ''down''), (7, 3, ''up'')] \<and>
   up_count (cast_votes [(7, 1, ''up''), (7, 2, ''down''), (7, 1, ''down''), (7, 1, ''down''), (7, 3, ''up'')] Map.empty) 7 = 1 \<and>
   down_count (cast_votes [(7, 1, ''up''), (7, 2, ''down''), (7, 1, ''down''), (7, 1, ''down''), (7, 3, ''up'')] Map.empty) 7 = 2 \<and>
   up_count (cast_votes [(7, 1, ''up''), (7, 2, ''down''), (7, 1, ''down''), (7, 1, ''down''), (7, 3, ''up'')] Map.empty) 7 +
   down_count (cast_votes [(7, 1, ''up''), (7, 2, ''down''), (7, 1, ''down''), (7, 1, ''down''), (7, 3, ''up'')] Map.empty) 7 =
     int (card {1, 2, 3 :: int})"
  using cast_vote_sequence_counts [of Map.empty 7 "[(7, 1, ''up''), (7, 2, ''down''), (7, 1, ''down''), (7, 1, ''down''), (7, 3, ''up'')]" 5]
  by (simp add: cast_vote_def vote_compute_def doc_or_new_def up_count_def down_count_def Let_def voters_on_def)


lemma reachable_count_pos:
  assumes "votes = cast_votes calls Map.empty" and "choice votes m u = Some x"
  shows "x = ''up'' \<longrightarrow> 1 \<le> up_count votes m" and "x = ''down'' \<longrightarrow> 1 \<le> down_count votes m"
proof -
  have "item_inv votes m" unfolding assms(1) by (rule reachable_inv)
  then have inv: "vote_inv (doc_or_new (votes m))" by (simp add: item_inv_def)
  have fin: "finite (dom (voters (doc_or_new (votes m))))" using inv by (simp add: vote_inv_def)
  have rec: "voters (doc_or_new (votes m)) u = Some x" using assms(2) by (simp add: choice_def)
  have pos: "1 \<le> int (card {w. voters (doc_or_new (votes m)) w = Some x})"
    by (rule card_choice_pos[OF fin rec])
  show "x = ''up'' \<longrightarrow> 1 \<le> up_count votes m" using pos inv by (auto simp: vote_inv_def up_count_def)
  show "x = ''down'' \<longrightarrow> 1 \<le> down_count votes m" using pos inv by (auto simp: vote_inv_def down_count_def)
qed

text \<open>
  Claim C2. In every collection reached by \<open>cast_vote\<close> calls from the empty one: a call that
  repeats the voter's recorded choice returns \<open>changed = False\<close> with the stored counts and
  leaves the collection as it is; a call with the opposite direction returns
  \<open>changed = True\<close>, the count of the old direction goes down by exactly one, the count of
  the new direction goes up by exactly one, and the new choice is recorded.
\<close>

theorem cast_vote_idempotent:
  assumes "votes = cast_votes calls Map.empty"
  shows "(choice votes m u = Some d \<longrightarrow>
            cast_vote votes m u d = ((False, up_count votes m, down_count votes m), votes)) \<and>
         (choice votes m u = Some ''down'' \<longrightarrow>
            fst (cast_vote votes m u ''up'') = (True, up_count votes m + 1, down_count votes m - 1) \<and>
            up_count (snd (cast_vote votes m u ''up'')) m = up_count votes m + 1 \<and>
            down_count (snd (cast_vote votes m u ''up'')) m = down_count votes m - 1 \<and>
            choice (snd (cast_vote votes m u ''up'')) m u = Some ''up'') \<and>
         (choice votes m u = Some ''up'' \<longrightarrow>
            fst (cast_vote votes m u ''down'') = (True, up_count votes m - 1, down_count votes m + 1) \<and>
            up_count (snd (cast_vote votes m u ''down'')) m = up_count votes m - 1 \<and>
            down_count (snd (cast_vote votes m u ''down'')) m = down_count votes m + 1 \<and>
            choice (snd (cast_vote votes m u ''down'')) m u = Some ''down'')"
proof (intro conjI impI)
  assume "choice votes m u = Some d"
  then show "cast_vote votes m u d = ((False, up_count votes m, down_count votes m), votes)"
    by (simp add: cast_vote_def vote_compute_def choice_def up_count_def down_count_def Let_def)
next
  assume c: "choice votes m u = Some ''down''"
  have pos: "1 \<le> down_count votes m" using reachable_count_pos(2)[OF assms c] by simp
  show "fst (cast_vote votes m u ''up'') = (True, up_count votes m + 1, down_count votes m - 1)"
    using c pos by (simp add: cast_vote_def vote_compute_def choice_def up_count_def down_count_def Let_def)
  show "up_count (snd (cast_vote votes m u ''up'')) m = up_count votes m + 1"
    using c pos by (simp add: cast_vote_def vote_compute_def choice_def up_count_def down_count_def Let_def doc_or_new_def)
  show "down_count (snd (cast_vote votes m u ''up'')) m = down_count votes m - 1"
    using c pos by (simp add: cast_vote_def vote_compute_def choice_def up_count_def down_count_def Let_def doc_or_new_def)
  show "choice (snd (cast_vote votes m u ''up'')) m u = Some ''up''"
    by (simp add: cast_vote_choice)
next
  assume c: "choice votes m u = Some ''up''"
  have pos: "1 \<le> up_count votes m" using reachable_count_pos(1)[OF assms c] by simp
  show "fst (cast_vote votes m u ''down'') = (True, up_count votes m - 1, down_count votes m + 1)"
    using c pos by (simp add: cast_vote_def vote_compute_def choice_def up_count_def down_count_def Let_def)
  show "up_count (snd (cast_vote votes m u ''down'')) m = up_count votes m - 1"
    using c pos by (simp add: cast_vote_def vote_compute_def choice_def up_count_def down_count_def Let_def doc_or_new_def)
  show "down_count (snd (cast_vote votes m u ''down'')) m = down_count votes m + 1"
    using c pos by (simp add: cast_vote_def vote_compute_def choice_def up_count_def down_count_def Let_def doc_or_new_def)
  show "choice (snd (cast_vote votes m u ''down'')) m u = Some ''down''"
    by (simp add: cast_vote_choice)
qed

theorem cast_vote_idempotent_witness:
  "choice (cast_votes [(7, 1, ''up''), (7, 2, ''down'')] Map.empty) 7 1 = Some ''up'' \<and>
   choice (cast_votes [(7, 1, ''up''), (7, 2, ''down'')] Map.empty) 7 2 = Some ''down'' \<and>
   up_count (cast_votes [(7, 1, ''up''), (7, 2, ''down'')] Map.empty) 7 = 1 \<and>
   down_count (cast_votes [(7, 1, ''up''), (7, 2, ''down'')] Map.empty) 7 = 1 \<and>
   fst (cast_vote (cast_votes [(7, 1, ''up''), (7, 2, ''down'')] Map.empty) 7 1 ''up'') = (False, 1, 1) \<and>
   snd (cast_vote (cast_votes [(7, 1, ''up''), (7, 2, ''down'')] Map.empty) 7 1 ''up'') =
     cast_votes [(7, 1, ''up''), (7, 2, ''down'')] Map.empty \<and>
   fst (cast_vote (cast_votes [(7, 1, ''up''), (7, 2, ''down'')] Map.empty) 7 2 ''up'') = (True, 2, 0) \<and>
   fst (cast_vote (cast_votes [(7, 1, ''up''), (7, 2, ''down'')] Map.empty) 7 1 ''down'') = (True, 0, 2)"
proof -
  let ?v = "cast_votes [(7, 1, ''up''), (7, 2, ''down'')] Map.empty"
  have c1: "choice ?v 7 1 = Some ''up''"
    by (simp add: cast_vote_def vote_compute_def doc_or_new_def choice_def Let_def)
  have c2: "choice ?v 7 2 = Some ''down''"
    by (simp add: cast_vote_def vote_compute_def doc_or_new_def choice_def Let_def)
  have u: "up_count ?v 7 = 1"
    by (simp add: cast_vote_def vote_compute_def doc_or_new_def up_count_def Let_def)
  have d: "down_count ?v 7 = 1"
    by (simp add: cast_vote_def vote_compute_def doc_or_new_def down_count_def Let_def)
  note a = cast_vote_idempotent [of ?v "[(7, 1, ''up''), (7, 2, ''down'')]" 7 1 "''up''", OF refl]
  note b = cast_vote_idempotent [of ?v "[(7, 1, ''up''), (7, 2, ''down'')]" 7 2 "''up''", OF refl]
  show ?thesis using a b c1 c2 u d by simp
qed

subsection \<open>Interleaved calls\<close>

text \<open>A call whose two store operations run back to back is \<open>cast_vote\<close>.\<close>

lemma vote_step_twice:
  "vote_step (fst (vote_step votes (VoteStart m u d))) (snd (vote_step votes (VoteStart m u d))) =
     (snd (cast_vote votes m u d),
      VoteDone (fst (fst (cast_vote votes m u d))) (fst (snd (fst (cast_vote votes m u d))))
               (snd (snd (fst (cast_vote votes m u d)))))"
  by (simp add: cast_vote_def split: prod.splits option.splits)

text \<open>
  Claim C3. The claim says that \<open>cast_vote\<close> is one atomic read-modify-write, so that two
  users voting up concurrently on the same item leave an up count of 2. The code reads with
  \<open>find_one\<close> and writes with a separate \<open>update_one\<close>. Users 1 and 2 vote up on item 7,
  which has no record; when both reads happen before either write, both calls return
  \<open>changed = True\<close> with an up count of 1, the stored up count is 1, and the choice of user 1
  is gone from the stored voters. Run one after the other, the same two calls leave an up
  count of 2.
\<close>

theorem cast_vote_lost_update:
  "up_count (fst (run_schedule [0, 1, 0, 1] (Map.empty, [VoteStart 7 1 ''up'', VoteStart 7 2 ''up'']))) 7 = 1 \<and>
   snd (run_schedule [0, 1, 0, 1] (Map.empty, [VoteStart 7 1 ''up'', VoteStart 7 2 ''up''])) =
     [VoteDone True 1 0, VoteDone True 1 0] \<and>
   choice (fst (run_schedule [0, 1, 0, 1] (Map.empty, [VoteStart 7 1 ''up'', VoteStart 7 2 ''up'']))) 7 1 = None \<and>
   up_count (fst (run_schedule [0, 0, 1, 1] (Map.empty, [VoteStart 7 1 ''up'', VoteStart 7 2 ''up'']))) 7 = 2"
  by (simp add: vote_compute_def doc_or_new_def up_count_def choice_def Let_def)

section \<open>Properties of the rate limiter\<close>

lemma rate_limit_ok_admit:
  assumes "length (filter (\<lambda>t. t > now - hour) (timestamps_of rl uid)) < 5"
  shows "rate_limit_ok rl uid now =
           (True, rl(uid \<mapsto> filter (\<lambda>t. t > now - hour) (timestamps_of rl uid) @ [now]))"
  using assms by (simp add: rate_limit_ok_def timestamps_of_def MAX_REVIEWS_PER_HOUR_def Let_def)

lemma rate_limit_ok_deny:
  assumes "5 \<le> length (filter (\<lambda>t. t > now - hour) (timestamps_of rl uid))"
  shows "rate_limit_ok rl uid now = (False, rl)"
  using assms by (simp add: rate_limit_ok_def timestamps_of_def MAX_REVIEWS_PER_HOUR_def Let_def)

lemma filter_all_live:
  assumes "\<forall>s \<in> set stored. s > now - hour"
  shows "filter (\<lambda>t. t > now - hour) stored = stored"
  using assms by (induction stored) auto

lemma filter_all_expired:
  assumes "\<forall>s \<in> set stored. s \<le> now - hour"
  shows "filter (\<lambda>t. t > now - hour) stored = []"
  using assms by (induction stored) auto

lemma admit_all_live:
  assumes "rl uid = Some stored"
    and "\<forall>s \<in> set stored. \<forall>t \<in> set nows. s > t - hour"
    and "within_window nows"
    and "length stored \<le> 5"
  shows "admit_all rl uid nows =
           (replicate (min (5 - length stored) (length nows)) True @
            replicate (length nows - (5 - length stored)) False,
            rl(uid \<mapsto> stored @ take (5 - length stored) nows))"
  using assms
proof (induction nows arbitrary: rl stored)
  case Nil
  then show ?case by (simp add: map_upd_triv)
next
  case (Cons now nows)
  have ts: "timestamps_of rl uid = stored" using Cons.prems(1) by (simp add: timestamps_of_def)
  have live: "filter (\<lambda>t. t > now - hour) stored = stored"
    using Cons.prems(2) by (intro filter_all_live) simp
  show ?case
  proof (cases "length stored = 5")
    case True
    have deny: "rate_limit_ok rl uid now = (False, rl)"
      using True by (intro rate_limit_ok_deny) (simp add: ts live)
    have ih: "admit_all rl uid nows =
           (replicate (min (5 - length stored) (length nows)) True @
            replicate (length nows - (5 - length stored)) False,
            rl(uid \<mapsto> stored @ take (5 - length stored) nows))"
      using Cons.prems by (intro Cons.IH) simp_all
    show ?thesis using deny ih True Cons.prems(1) by (auto simp: fun_upd_def)
  next
    case False
    then have lt: "length stored < 5" using Cons.prems(4) by simp
    let ?rl' = "rl(uid \<mapsto> stored @ [now])"
    have adm: "rate_limit_ok rl uid now = (True, ?rl')"
      using rate_limit_ok_admit[of now rl uid] lt by (simp add: ts live)
    have ih: "admit_all ?rl' uid nows =
           (replicate (min (5 - length (stored @ [now])) (length nows)) True @
            replicate (length nows - (5 - length (stored @ [now]))) False,
            ?rl'(uid \<mapsto> (stored @ [now]) @ take (5 - length (stored @ [now])) nows))"
    proof (rule Cons.IH)
      show "?rl' uid = Some (stored @ [now])" by simp
      show "\<forall>s\<in>set (stored @ [now]). \<forall>t\<in>set nows. t - hour < s"
        using Cons.prems(2,3) by (auto simp: list_all_iff)
      show "within_window nows" using Cons.prems(3) by simp
      show "length (stored @ [now]) \<le> 5" using lt by simp
    qed
    have n: "5 - length stored = Suc (4 - length stored)" using lt by simp
    show ?thesis using adm ih lt by (auto simp: n replicate_app_Cons_same fun_upd_def)
  qed
qed


lemma admit_all_fresh:
  assumes "within_window nows"
    and "\<forall>s \<in> set (timestamps_of rl uid). \<forall>t \<in> set nows. s \<le> t - hour"
    and "nows \<noteq> []"
  shows "admit_all rl uid nows =
           (replicate (min 5 (length nows)) True @ replicate (length nows - 5) False,
            rl(uid \<mapsto> take 5 nows))"
proof -
  obtain now rest where nows: "nows = now # rest" using assms(3) by (cases nows) auto
  have expired: "filter (\<lambda>t. t > now - hour) (timestamps_of rl uid) = []"
    using assms(2) by (intro filter_all_expired) (simp add: nows)
  let ?rl' = "rl(uid \<mapsto> [now])"
  have adm: "rate_limit_ok rl uid now = (True, ?rl')"
    using rate_limit_ok_admit[of now rl uid] by (simp add: expired)
  have rest: "admit_all ?rl' uid rest =
           (replicate (min (5 - length [now]) (length rest)) True @
            replicate (length rest - (5 - length [now])) False,
            ?rl'(uid \<mapsto> [now] @ take (5 - length [now]) rest))"
  proof (rule admit_all_live)
    show "?rl' uid = Some [now]" by simp
    show "\<forall>s\<in>set [now]. \<forall>t\<in>set rest. t - hour < s"
      using assms(1) by (auto simp: nows list_all_iff)
    show "within_window rest" using assms(1) by (simp add: nows)
    show "length [now] \<le> 5" by simp
  qed
  have five: "take 5 (now # rest) = now # take 4 rest" by (simp add: take_Cons')
  show ?thesis unfolding nows five using adm rest by (simp add: replicate_app_Cons_same)
qed

text \<open>
  Claim C4. One user calls the admission check ten times (twice the ceiling of 5), all
  within one trailing one-hour window, every timestamp stored before having left the
  window. The first five calls return \<open>True\<close> and the last five \<open>False\<close>, so exactly five
  are admitted, and the stored record ends as the times of the five admitted calls. For
  any single call: when it returns \<open>True\<close> the stored list becomes the retained
  timestamps followed by the current time; when it returns \<open>False\<close> the collection is
  unchanged.
\<close>

theorem rate_limit_admits_ceiling:
  assumes "length nows = 2 * nat MAX_REVIEWS_PER_HOUR"
    and "within_window nows"
    and "\<forall>s \<in> set (timestamps_of rl uid). \<forall>t \<in> set nows. s \<le> t - hour"
  shows "fst (admit_all rl uid nows) =
           replicate (nat MAX_REVIEWS_PER_HOUR) True @ replicate (nat MAX_REVIEWS_PER_HOUR) False \<and>
         length (filter (\<lambda>ok. ok) (fst (admit_all rl uid nows))) = nat MAX_REVIEWS_PER_HOUR \<and>
         snd (admit_all rl uid nows) = rl(uid \<mapsto> take (nat MAX_REVIEWS_PER_HOUR) nows) \<and>
         (fst (rate_limit_ok rl' u t) \<longrightarrow>
            snd (rate_limit_ok rl' u t) =
              rl'(u \<mapsto> filter (\<lambda>s. s > t - hour) (timestamps_of rl' u) @ [t])) \<and>
         (\<not> fst (rate_limit_ok rl' u t) \<longrightarrow> snd (rate_limit_ok rl' u t) = rl')"
proof -
  have len: "length nows = 10" using assms(1) by (simp add: MAX_REVIEWS_PER_HOUR_def)
  then have ne: "nows \<noteq> []" by auto
  have run: "admit_all rl uid nows =
           (replicate (min 5 (length nows)) True @ replicate (length nows - 5) False,
            rl(uid \<mapsto> take 5 nows))"
    by (rule admit_all_fresh[OF assms(2) assms(3) ne])
  have a: "fst (admit_all rl uid nows) =
           replicate (nat MAX_REVIEWS_PER_HOUR) True @ replicate (nat MAX_REVIEWS_PER_HOUR) False"
    using run len by (simp add: MAX_REVIEWS_PER_HOUR_def)
  have b: "length (filter (\<lambda>ok. ok) (fst (admit_all rl uid nows))) = nat MAX_REVIEWS_PER_HOUR"
    unfolding a by simp
  have c: "snd (admit_all rl uid nows) = rl(uid \<mapsto> take (nat MAX_REVIEWS_PER_HOUR) nows)"
    using run by (simp add: MAX_REVIEWS_PER_HOUR_def)
  have d: "fst (rate_limit_ok rl' u t) \<longrightarrow>
            snd (rate_limit_ok rl' u t) =
              rl'(u \<mapsto> filter (\<lambda>s. s > t - hour) (timestamps_of rl' u) @ [t])"
    by (simp add: rate_limit_ok_def timestamps_of_def Let_def)
  have e: "\<not> fst (rate_limit_ok rl' u t) \<longrightarrow> snd (rate_limit_ok rl' u t) = rl'"
    by (simp add: rate_limit_ok_def Let_def)
  show ?thesis using a b c d e by blast
qed

theorem rate_limit_admits_ceiling_witness:
  "length [0, 10, 20, 30, 40, 50, 60, 70, 80, 3599999999 :: int] = 2 * nat MAX_REVIEWS_PER_HOUR \<and>
   within_window [0, 10, 20, 30, 40, 50, 60, 70, 80, 3599999999] \<and>
   list_all (\<lambda>s. list_all (\<lambda>t. s \<le> t - hour) [0, 10, 20, 30, 40, 50, 60, 70, 80, 3599999999])
     (timestamps_of [42 \<mapsto> [- 3600000000, - 5000000000]] 42) \<and>
   fst (admit_all [42 \<mapsto> [- 3600000000, - 5000000000]] 42 [0, 10, 20, 30, 40, 50, 60, 70, 80, 3599999999]) =
     [True, True, True, True, True, False, False, False, False, False] \<and>
   snd (admit_all [42 \<mapsto> [- 3600000000, - 5000000000]] 42 [0, 10, 20, 30, 40, 50, 60, 70, 80, 3599999999]) 42 =
     Some [0, 10, 20, 30, 40]"
proof -
  have h1: "length [0, 10, 20, 30, 40, 50, 60, 70, 80, 3599999999 :: int] = 2 * nat MAX_REVIEWS_PER_HOUR"
    by (simp add: MAX_REVIEWS_PER_HOUR_def)
  have h2: "within_window [0, 10, 20, 30, 40, 50, 60, 70, 80, 3599999999]"
    by (simp add: hour_def)
  have h3: "\<forall>s \<in> set (timestamps_of [42 \<mapsto> [- 3600000000, - 5000000000]] 42).
              \<forall>t \<in> set [0, 10, 20, 30, 40, 50, 60, 70, 80, 3599999999]. s \<le> t - hour"
    by (simp add: timestamps_of_def hour_def)
  have h3': "list_all (\<lambda>s. list_all (\<lambda>t. s \<le> t - hour) [0, 10, 20, 30, 40, 50, 60, 70, 80, 3599999999])
     (timestamps_of [42 \<mapsto> [- 3600000000, - 5000000000]] 42)"
    by (simp add: timestamps_of_def hour_def)
  show ?thesis
    using rate_limit_admits_ceiling [OF h1 h2 h3] h1 h2 h3'
    by (simp add: MAX_REVIEWS_PER_HOUR_def numeral_eq_Suc)
qed

section \<open>Properties of the body handler\<close>

lemma session_fst: "fst (session uid st) = (case sessions st uid of None \<Rightarrow> Session_init uid | Some s \<Rightarrow> s)"
  by (simp add: session_def split: option.splits)

lemma session_snd_sessions:
  "sessions (snd (session uid st)) = (sessions st)(uid \<mapsto> fst (session uid st))"
  by (auto simp: session_def split: option.splits)

lemma session_snd_other:
  "banned_cache (snd (session uid st)) = banned_cache st"
  "bans (snd (session uid st)) = bans st"
  "contexts (snd (session uid st)) = contexts st"
  "violations (snd (session uid st)) = violations st"
  "ratelimits (snd (session uid st)) = ratelimits st"
  "reviews (snd (session uid st)) = reviews st"
  "members_cache (snd (session uid st)) = members_cache st"
  "members (snd (session uid st)) = members st"
  "outbox (snd (session uid st)) = outbox st"
  by (simp_all add: session_def split: option.splits)

lemma session_idem: "fst (session uid (snd (session uid st))) = fst (session uid st)"
  by (simp add: session_def split: option.splits)

lemma send_fields:
  "sessions (send c n st) = sessions st"
  "banned_cache (send c n st) = banned_cache st"
  "bans (send c n st) = bans st"
  "contexts (send c n st) = contexts st"
  "violations (send c n st) = violations st"
  "ratelimits (send c n st) = ratelimits st"
  "reviews (send c n st) = reviews st"
  "members_cache (send c n st) = members_cache st"
  "members (send c n st) = members st"
  "outbox (send c n st) = outbox st @ [Send c n]"
  by (simp_all add: send_def)

lemma session_send: "session uid (send c n st) = (fst (session uid st), send c n (snd (session uid st)))"
  by (simp add: session_def send_def split: option.splits)

text \<open>
  Claim C6. In the state \<open>ST_CONTENT\<close>, a message whose trimmed length is below 30 is
  answered with the too-short notice and the handler returns \<open>ST_CONTENT\<close> again. Nothing
  about the content filter is assumed, so this holds whatever the filter would say. The
  user's session, with its draft and its committed list, is the same before and after; when
  the user already had a session, the whole session map is unchanged.
\<close>

theorem handler_content_too_short:
  assumes "length (strip message_text) < 30"
  shows "handler_content display admin_ok clock uid message_text st =
           (Inr ST_CONTENT, send uid ERR_SHORT_REVIEW (snd (session uid st))) \<and>
         fst (session uid (snd (handler_content display admin_ok clock uid message_text st))) =
           fst (session uid st) \<and>
         draft (fst (session uid (snd (handler_content display admin_ok clock uid message_text st)))) =
           draft (fst (session uid st)) \<and>
         drafts (fst (session uid (snd (handler_content display admin_ok clock uid message_text st)))) =
           drafts (fst (session uid st)) \<and>
         (sessions st uid \<noteq> None \<longrightarrow>
            sessions (snd (handler_content display admin_ok clock uid message_text st)) = sessions st)"
proof -
  have eq: "handler_content display admin_ok clock uid message_text st =
           (Inr ST_CONTENT, send uid ERR_SHORT_REVIEW (snd (session uid st)))"
    using assms by (simp add: handler_content_def Let_def split: prod.splits)
  have same: "fst (session uid (send uid ERR_SHORT_REVIEW (snd (session uid st)))) = fst (session uid st)"
    by (simp add: session_send session_idem)
  have keep: "sessions st uid \<noteq> None \<longrightarrow>
            sessions (send uid ERR_SHORT_REVIEW (snd (session uid st))) = sessions st"
    by (auto simp: send_fields session_def split: option.splits)
  show ?thesis unfolding eq using same keep by simp
qed


theorem handler_content_too_short_witness:
  "length (strip ''  a real idiot, this one   '') < 30 \<and>
   contains_profanity (strip ''  a real idiot, this one   '') \<and>
   fst (handler_content ''Student'' (\<lambda>d. True) (\<lambda>i. 0) 5 ''  a real idiot, this one   ''
          (bot_init\<lparr>sessions := [5 \<mapsto> (Session_init 5)\<lparr>draft := Some (Draft_init ''ab12cd34'' 0),
                                                       drafts := [Draft_init ''ffff0000'' 0]\<rparr>]\<rparr>)) =
     Inr ST_CONTENT \<and>
   sessions (snd (handler_content ''Student'' (\<lambda>d. True) (\<lambda>i. 0) 5 ''  a real idiot, this one   ''
          (bot_init\<lparr>sessions := [5 \<mapsto> (Session_init 5)\<lparr>draft := Some (Draft_init ''ab12cd34'' 0),
                                                       drafts := [Draft_init ''ffff0000'' 0]\<rparr>]\<rparr>))) 5 =
     Some ((Session_init 5)\<lparr>draft := Some (Draft_init ''ab12cd34'' 0),
                             drafts := [Draft_init ''ffff0000'' 0]\<rparr>) \<and>
   outbox (snd (handler_content ''Student'' (\<lambda>d. True) (\<lambda>i. 0) 5 ''  a real idiot, this one   ''
          (bot_init\<lparr>sessions := [5 \<mapsto> (Session_init 5)\<lparr>draft := Some (Draft_init ''ab12cd34'' 0),
                                                       drafts := [Draft_init ''ffff0000'' 0]\<rparr>]\<rparr>))) =
     [Send 5 ERR_SHORT_REVIEW]"
proof -
  have h: "length (strip ''  a real idiot, this one   '') < 30" by code_simp
  have p: "contains_profanity (strip ''  a real idiot, this one   '')" by code_simp
  show ?thesis
    using handler_content_too_short [OF h, of "''Student''" "\<lambda>d. True" "\<lambda>i. 0" 5
      "bot_init\<lparr>sessions := [5 \<mapsto> (Session_init 5)\<lparr>draft := Some (Draft_init ''ab12cd34'' 0),
                                                       drafts := [Draft_init ''ffff0000'' 0]\<rparr>]\<rparr>"] h p
    by (simp add: session_def send_def bot_init_def)
qed

text \<open>
  Claim C7. In the state \<open>ST_CONTENT\<close>, a body of trimmed length at least 30 that the filter
  flags raises the user's violation count by one (a missing record counts as zero). When the
  new count is at or above \<open>MAX_PROFANITY_STRIKES\<close> the user is added to the banned set, the
  session is dropped and the conversation ends. Below it, the handler returns \<open>ST_CONTENT\<close>
  with the strike notice carrying the new count, nobody is banned, and the user's session
  is left as it was: the body is not stored in the draft and nothing is committed.
\<close>

theorem handler_content_profanity:
  assumes "30 \<le> length (strip message_text)"
    and "contains_profanity (strip message_text)"
  shows "violations (snd (handler_content display admin_ok clock uid message_text st)) =
           (violations st)(uid \<mapsto> (case violations st uid of None \<Rightarrow> 1 | Some n \<Rightarrow> n + 1)) \<and>
         ((case violations st uid of None \<Rightarrow> 1 | Some n \<Rightarrow> n + 1) \<ge> MAX_PROFANITY_STRIKES \<longrightarrow>
            fst (handler_content display admin_ok clock uid message_text st) = Inr END \<and>
            is_banned uid (snd (handler_content display admin_ok clock uid message_text st)) \<and>
            uid \<in> bans (snd (handler_content display admin_ok clock uid message_text st)) \<and>
            sessions (snd (handler_content display admin_ok clock uid message_text st)) uid = None \<and>
            outbox (snd (handler_content display admin_ok clock uid message_text st)) =
              outbox st @ [Send uid ERR_PROFANITY_BANNED]) \<and>
         ((case violations st uid of None \<Rightarrow> 1 | Some n \<Rightarrow> n + 1) < MAX_PROFANITY_STRIKES \<longrightarrow>
            fst (handler_content display admin_ok clock uid message_text st) = Inr ST_CONTENT \<and>
            outbox (snd (handler_content display admin_ok clock uid message_text st)) =
              outbox st @ [Send uid (ERR_PROFANITY_STRIKE
                                       (case violations st uid of None \<Rightarrow> 1 | Some n \<Rightarrow> n + 1))] \<and>
            fst (session uid (snd (handler_content display admin_ok clock uid message_text st))) =
              fst (session uid st) \<and>
            sessions (snd (handler_content display admin_ok clock uid message_text st)) =
              (sessions st)(uid \<mapsto> fst (session uid st)) \<and>
            banned_cache (snd (handler_content display admin_ok clock uid message_text st)) =
              banned_cache st \<and>
            bans (snd (handler_content display admin_ok clock uid message_text st)) = bans st)"
proof -
  define count where "count = (case violations st uid of None \<Rightarrow> (1::int) | Some n \<Rightarrow> n + 1)"
  define st0 where "st0 = snd (session uid st)"
  have sess: "session uid st = (fst (session uid st), st0)" by (simp add: st0_def)
  have v0: "violations st0 = violations st" by (simp add: st0_def session_snd_other)
  have av: "add_violation uid st0 = (count, st0\<lparr>violations := (violations st)(uid \<mapsto> count)\<rparr>)"
    by (simp add: add_violation_def Let_def v0 count_def)
  have nshort: "\<not> length (strip message_text) < 30" using assms(1) by simp
  have res: "handler_content display admin_ok clock uid message_text st =
     (if count \<ge> MAX_PROFANITY_STRIKES
      then (Inr END, sessions_pop uid (send uid ERR_PROFANITY_BANNED
                       (ban uid (st0\<lparr>violations := (violations st)(uid \<mapsto> count)\<rparr>))))
      else (Inr ST_CONTENT, send uid (ERR_PROFANITY_STRIKE count)
                       (st0\<lparr>violations := (violations st)(uid \<mapsto> count)\<rparr>)))"
    unfolding handler_content_def Let_def using nshort assms(2) by (subst sess) (simp add: av)
  have ob: "outbox st0 = outbox st" by (simp add: st0_def session_snd_other)
  have bc: "banned_cache st0 = banned_cache st" "bans st0 = bans st"
    by (simp_all add: st0_def session_snd_other)
  have s0: "fst (session uid st0) = fst (session uid st)" by (simp add: st0_def session_idem)
  have s1: "fst (session uid (send uid (ERR_PROFANITY_STRIKE count)
                       (st0\<lparr>violations := (violations st)(uid \<mapsto> count)\<rparr>))) = fst (session uid st)"
    using s0 by (simp add: session_def send_def split: option.splits)
  have s2: "sessions st0 = (sessions st)(uid \<mapsto> fst (session uid st))"
    by (simp add: st0_def session_snd_sessions)
  show ?thesis
    unfolding count_def[symmetric] res
    using ob bc s1 s2
    by (simp add: sessions_pop_def send_def ban_def is_banned_def)
qed


theorem handler_content_profanity_witness:
  "(let body = ''This teacher is a complete idiot and a fool'';
        st = bot_init\<lparr>sessions := [5 \<mapsto> (Session_init 5)\<lparr>draft := Some (Draft_init ''ab12cd34'' 0)\<rparr>]\<rparr>;
        first = handler_content ''Student'' (\<lambda>d. True) (\<lambda>i. 0) 5 body st;
        third = handler_content ''Student'' (\<lambda>d. True) (\<lambda>i. 0) 5 body (st\<lparr>violations := [5 \<mapsto> 2]\<rparr>)
    in 30 \<le> length (strip body) \<and> contains_profanity (strip body) \<and>
       fst first = Inr ST_CONTENT \<and> violations (snd first) 5 = Some 1 \<and>
       outbox (snd first) = [Send 5 (ERR_PROFANITY_STRIKE 1)] \<and>
       sessions (snd first) 5 = sessions st 5 \<and> \<not> is_banned 5 (snd first) \<and>
       fst third = Inr END \<and> violations (snd third) 5 = Some 3 \<and>
       is_banned 5 (snd third) \<and> sessions (snd third) 5 = None)"
proof -
  have h: "30 \<le> length (strip ''This teacher is a complete idiot and a fool'')" by code_simp
  have p: "contains_profanity (strip ''This teacher is a complete idiot and a fool'')" by code_simp
  note a = handler_content_profanity [OF h p, of "''Student''" "\<lambda>d. True" "\<lambda>i. 0" 5
      "bot_init\<lparr>sessions := [5 \<mapsto> (Session_init 5)\<lparr>draft := Some (Draft_init ''ab12cd34'' 0)\<rparr>]\<rparr>"]
  note b = handler_content_profanity [OF h p, of "''Student''" "\<lambda>d. True" "\<lambda>i. 0" 5
      "bot_init\<lparr>sessions := [5 \<mapsto> (Session_init 5)\<lparr>draft := Some (Draft_init ''ab12cd34'' 0)\<rparr>],
                violations := [5 \<mapsto> 2]\<rparr>"]
  show ?thesis
    unfolding Let_def using a b h p
    by (simp add: bot_init_def MAX_PROFANITY_STRIKES_def session_def is_banned_def fun_upd_def)
qed

text \<open>
  Claim C10. The length check comes before the content filter: a message of trimmed length
  below 30 that contains forbidden words leaves the violation counts and the banned set
  unchanged, and the handler returns \<open>ST_CONTENT\<close>, so it does not end the conversation with
  a ban.
\<close>

theorem short_body_never_strikes:
  assumes "length (strip message_text) < 30"
    and "contains_profanity (strip message_text)"
  shows "violations (snd (handler_content display admin_ok clock uid message_text st)) = violations st \<and>
         banned_cache (snd (handler_content display admin_ok clock uid message_text st)) = banned_cache st \<and>
         bans (snd (handler_content display admin_ok clock uid message_text st)) = bans st \<and>
         is_banned uid (snd (handler_content display admin_ok clock uid message_text st)) = is_banned uid st \<and>
         fst (handler_content display admin_ok clock uid message_text st) = Inr ST_CONTENT"
proof -
  have eq: "handler_content display admin_ok clock uid message_text st =
           (Inr ST_CONTENT, send uid ERR_SHORT_REVIEW (snd (session uid st)))"
    using assms(1) by (simp add: handler_content_def Let_def split: prod.splits)
  show ?thesis unfolding eq by (simp add: send_fields session_snd_other is_banned_def)
qed

theorem short_body_never_strikes_witness:
  "(let body = ''  you idiot, stupid fool  '';
        st = bot_init\<lparr>violations := [5 \<mapsto> 2]\<rparr>;
        r = handler_content ''Student'' (\<lambda>d. True) (\<lambda>i. 0) 5 body st
    in length (strip body) < 30 \<and> contains_profanity (strip body) \<and>
       violations (snd r) 5 = Some 2 \<and> \<not> is_banned 5 (snd r) \<and> fst r = Inr ST_CONTENT)"
proof -
  have h: "length (strip ''  you idiot, stupid fool  '') < 30" by code_simp
  have p: "contains_profanity (strip ''  you idiot, stupid fool  '')" by code_simp
  show ?thesis
    unfolding Let_def
    using short_body_never_strikes [OF h p, of "''Student''" "\<lambda>d. True" "\<lambda>i. 0" 5
            "bot_init\<lparr>violations := [5 \<mapsto> 2]\<rparr>"] h p
    by (simp add: bot_init_def is_banned_def)
qed

section \<open>Properties of the content filter\<close>

lemma is_word_lower [simp]: "is_word_char (lower_char c) = is_word_char c"
proof (cases "lower_char c = c")
  case True
  then show ?thesis by simp
next
  case False
  define n where "n = (of_char c :: nat)"
  have up: "(65 \<le> n \<and> n \<le> 90) \<or> (192 \<le> n \<and> n \<le> 214) \<or> (216 \<le> n \<and> n \<le> 222)"
    using False by (auto simp: lower_char_def Let_def n_def split: if_splits)
  then have lc: "lower_char c = char_of (n + 32)"
    by (simp add: lower_char_def Let_def n_def)
  have small: "n + 32 < 256" using up by arith
  have val: "(of_char (lower_char c) :: nat) = n + 32"
    unfolding lc using small by simp
  have up0: "(65 \<le> n \<and> n \<le> 90) \<or> (192 \<le> n \<and> n \<le> 214) \<or> (216 \<le> n \<and> n \<le> 246)"
    using up by arith
  have w1: "is_word_char c"
    unfolding is_word_char_def Let_def n_def[symmetric] using up0 by blast
  have up': "(97 \<le> n + 32 \<and> n + 32 \<le> 122) \<or> (216 \<le> n + 32 \<and> n + 32 \<le> 246) \<or>
             (248 \<le> n + 32 \<and> n + 32 \<le> 255)"
    using up by arith
  have w2: "is_word_char (lower_char c)"
    unfolding is_word_char_def Let_def val using up' by blast
  show ?thesis using w1 w2 by simp
qed

lemma word_not_space: "is_word_char c \<Longrightarrow> \<not> is_space c"
  unfolding is_word_char_def is_space_def Let_def by arith

lemma profanity_words_wellformed:
  assumes "w \<in> PROFANITY_SET"
  shows "w \<noteq> [] \<and> list_all is_word_char w"
proof -
  have "\<forall>v \<in> PROFANITY_SET. v \<noteq> [] \<and> list_all is_word_char v"
    unfolding PROFANITY_SET_def by (simp add: is_word_char_def)
  then show ?thesis using assms by blast
qed

lemma findall_skip_prefix:
  "\<forall>c \<in> set a. \<not> is_word_char c \<Longrightarrow> findall_words (a @ r) = findall_words r"
  by (induction a) auto

lemma findall_nonword: "\<forall>c \<in> set b. \<not> is_word_char c \<Longrightarrow> findall_words b = []"
  using findall_skip_prefix[of b "[]"] by simp

lemma takeWhile_boundary:
  assumes "ys = [] \<or> \<not> P (hd ys)"
  shows "takeWhile P (xs @ ys) = takeWhile P xs"
proof (cases ys)
  case Nil
  then show ?thesis by simp
next
  case (Cons y ys')
  then have "\<not> P y" using assms by simp
  then show ?thesis unfolding Cons by (rule takeWhile_tail)
qed

lemma findall_skip_suffix:
  "\<forall>c \<in> set b. \<not> is_word_char c \<Longrightarrow> findall_words (m @ b) = findall_words m"
proof (induction m rule: findall_words.induct)
  case 1
  then show ?case by (simp add: findall_nonword)
next
  case (2 c cs)
  show ?case
  proof (cases "is_word_char c")
    case False
    then show ?thesis using 2 by simp
  next
    case True
    have bnd: "b = [] \<or> \<not> is_word_char (hd b)" using 2(3) by (cases b) auto
    have tw: "takeWhile is_word_char (cs @ b) = takeWhile is_word_char cs"
      using bnd by (rule takeWhile_boundary)
    have dw: "findall_words (dropWhile is_word_char (cs @ b)) = findall_words (dropWhile is_word_char cs)"
    proof (cases "\<forall>x \<in> set cs. is_word_char x")
      case True
      then have e1: "dropWhile is_word_char (cs @ b) = b" using 2(3) by (simp add: dropWhile_append)
      have e2: "dropWhile is_word_char cs = []" using True by simp
      have e3: "findall_words b = []" using 2(3) by (rule findall_nonword)
      show ?thesis unfolding e1 e2 e3 by simp
    next
      case False
      then obtain x where "x \<in> set cs" and "\<not> is_word_char x" by blast
      then have "dropWhile is_word_char (cs @ b) = dropWhile is_word_char cs @ b"
        by (rule dropWhile_append1)
      then show ?thesis using 2(1)[OF True 2(3)] by simp
    qed
    show ?thesis using True tw dw by simp
  qed
qed

lemma findall_token:
  assumes "w \<noteq> []" and "list_all is_word_char w"
    and "pre = [] \<or> \<not> is_word_char (last pre)"
    and "post = [] \<or> \<not> is_word_char (hd post)"
  shows "w \<in> set (findall_words (pre @ w @ post))"
  using assms(3)
proof (induction pre rule: findall_words.induct)
  case 1
  obtain c cs where w: "w = c # cs" using assms(1) by (cases w) auto
  have allw: "\<forall>x \<in> set (c # cs). is_word_char x" using assms(2) by (simp add: w list_all_iff)
  have "takeWhile is_word_char ((c # cs) @ post) = (c # cs) @ takeWhile is_word_char post"
    by (intro takeWhile_append2) (use allw in auto)
  moreover have "takeWhile is_word_char post = []" using assms(4) by (simp add: takeWhile_eq_Nil_iff)
  ultimately have "takeWhile is_word_char (c # cs @ post) = c # cs" by simp
  then show ?case using allw unfolding w by simp
next
  case (2 c cs)
  show ?case
  proof (cases "is_word_char c")
    case False
    have "cs = [] \<or> \<not> is_word_char (last cs)" using 2(3) by (cases cs) auto
    then show ?thesis using False 2(2) by simp
  next
    case True
    then have csne: "cs \<noteq> []" using 2(3) by auto
    then have lastcs: "\<not> is_word_char (last cs)" using 2(3) by simp
    have mem: "last cs \<in> set cs" using csne by simp
    have dw: "dropWhile is_word_char (cs @ w @ post) = dropWhile is_word_char cs @ w @ post"
      using mem lastcs by (rule dropWhile_append1)
    have ne: "dropWhile is_word_char cs \<noteq> []" using mem lastcs by auto
    have "last (dropWhile is_word_char cs) = last cs" using mem lastcs by (rule dropWhile_last)
    then have bnd: "dropWhile is_word_char cs = [] \<or> \<not> is_word_char (last (dropWhile is_word_char cs))"
      using lastcs by simp
    have "w \<in> set (findall_words (dropWhile is_word_char cs @ w @ post))"
      by (rule 2(1)[OF True bnd])
    then show ?thesis using True dw by simp
  qed
qed

lemma strip_decompose:
  "\<exists>a b. s = a @ strip s @ b \<and> (\<forall>c \<in> set a. is_space c) \<and> (\<forall>c \<in> set b. is_space c)"
proof -
  let ?a = "takeWhile is_space s"
  let ?t = "dropWhile is_space s"
  let ?b = "rev (takeWhile is_space (rev ?t))"
  have "rev (rev ?t) = rev (dropWhile is_space (rev ?t)) @ rev (takeWhile is_space (rev ?t))"
    using rev_append[of "takeWhile is_space (rev ?t)" "dropWhile is_space (rev ?t)"]
    by (simp only: takeWhile_dropWhile_id)
  then have t: "?t = strip s @ ?b" by (simp only: rev_rev_ident strip_def)
  have "s = ?a @ ?t" by simp
  then have s: "s = ?a @ strip s @ ?b" using t by simp
  have a: "\<forall>c \<in> set ?a. is_space c" by (auto dest: set_takeWhileD)
  have b: "\<forall>c \<in> set ?b. is_space c" by (auto dest: set_takeWhileD)
  show ?thesis using s a b by blast
qed

lemma contains_profanity_strip: "contains_profanity (strip s) = contains_profanity s"
proof -
  obtain a b where s: "s = a @ strip s @ b" and a: "\<forall>c \<in> set a. is_space c"
    and b: "\<forall>c \<in> set b. is_space c" using strip_decompose by blast
  have la: "\<forall>c \<in> set (lower a). \<not> is_word_char c" using a by (auto simp: lower_def dest: word_not_space)
  have lb: "\<forall>c \<in> set (lower b). \<not> is_word_char c" using b by (auto simp: lower_def dest: word_not_space)
  have "lower s = lower a @ lower (strip s) @ lower b"
    by (subst s) (simp add: lower_def)
  then have "findall_words (lower s) = findall_words (lower (strip s) @ lower b)"
    using la by (simp add: findall_skip_prefix)
  also have "\<dots> = findall_words (lower (strip s))" using lb by (rule findall_skip_suffix)
  finally show ?thesis by (simp add: contains_profanity_def)
qed

lemma token_flagged:
  assumes "lower w \<in> PROFANITY_SET"
    and "pre = [] \<or> \<not> is_word_char (last pre)"
    and "post = [] \<or> \<not> is_word_char (hd post)"
  shows "contains_profanity (pre @ w @ post)"
proof -
  have wf: "lower w \<noteq> [] \<and> list_all is_word_char (lower w)"
    by (rule profanity_words_wellformed[OF assms(1)])
  have p: "lower pre = [] \<or> \<not> is_word_char (last (lower pre))"
    using assms(2) by (auto simp: lower_def last_map)
  have q: "lower post = [] \<or> \<not> is_word_char (hd (lower post))"
    using assms(3) by (auto simp: lower_def hd_map)
  have "lower w \<in> set (findall_words (lower pre @ lower w @ lower post))"
    using wf p q by (intro findall_token) simp_all
  moreover have "lower (pre @ w @ post) = lower pre @ lower w @ lower post" by (simp add: lower_def)
  ultimately show ?thesis using assms(1) by (auto simp: contains_profanity_def list_ex_iff)
qed


text \<open>
  The filter compares whole tokens: a forbidden word inside a longer word is not a token.
\<close>

lemma substring_is_not_token:
  "\<not> contains_profanity ''such stupidity in this class, the dumbest ever''"
  by code_simp

lemma handler_content_flagged:
  assumes "30 \<le> length (strip message_text)"
    and "contains_profanity (strip message_text)"
  shows "(fst (handler_content display admin_ok clock uid message_text st) = Inr ST_CONTENT \<or>
          fst (handler_content display admin_ok clock uid message_text st) = Inr END) \<and>
         violations (snd (handler_content display admin_ok clock uid message_text st)) uid =
           Some (case violations st uid of None \<Rightarrow> 1 | Some n \<Rightarrow> n + 1)"
proof -
  obtain sess st0 where sess: "session uid st = (sess, st0)" by (cases "session uid st")
  have v0: "violations st0 = violations st"
    using session_snd_other(4)[of uid st] sess by simp
  have nshort: "\<not> length (strip message_text) < 30" using assms(1) by simp
  show ?thesis
    unfolding handler_content_def Let_def sess
    using nshort assms(2) v0
    by (simp add: add_violation_def Let_def sessions_pop_def send_def ban_def)
qed

text \<open>
  Claim C8. A forbidden token in a body is an occurrence of a word whose lower-case form
  is in \<open>PROFANITY_SET\<close>, delimited on each side by the end of the text or by a character
  that is not a word character. Every text with such an occurrence is flagged by
  \<open>contains_profanity\<close>, whatever its length, before and after trimming; when its trimmed
  length is at least 30 the body handler does not accept it: it records a violation and
  returns \<open>ST_CONTENT\<close> or ends the conversation.
\<close>

theorem forbidden_token_rejected:
  assumes "lower w \<in> PROFANITY_SET"
    and "pre = [] \<or> \<not> is_word_char (last pre)"
    and "post = [] \<or> \<not> is_word_char (hd post)"
  shows "contains_profanity (pre @ w @ post) \<and>
         contains_profanity (strip (pre @ w @ post)) \<and>
         (30 \<le> length (strip (pre @ w @ post)) \<longrightarrow>
            (fst (handler_content display admin_ok clock uid (pre @ w @ post) st) = Inr ST_CONTENT \<or>
             fst (handler_content display admin_ok clock uid (pre @ w @ post) st) = Inr END) \<and>
            violations (snd (handler_content display admin_ok clock uid (pre @ w @ post) st)) uid =
              Some (case violations st uid of None \<Rightarrow> 1 | Some n \<Rightarrow> n + 1))"
proof -
  have raw: "contains_profanity (pre @ w @ post)" using assms by (rule token_flagged)
  then have trimmed: "contains_profanity (strip (pre @ w @ post))"
    by (simp add: contains_profanity_strip)
  show ?thesis using raw trimmed handler_content_flagged[OF _ trimmed] by blast
qed

theorem forbidden_token_rejected_witness:
  "(let body = ''  This teacher is a complete '' @ ''IDIOT'' @ '', really the worst I have seen  '';
        r = handler_content ''Student'' (\<lambda>d. True) (\<lambda>i. 0) 5 body
              (bot_init\<lparr>sessions := [5 \<mapsto> (Session_init 5)\<lparr>draft := Some (Draft_init ''ab12cd34'' 0)\<rparr>]\<rparr>)
    in lower ''IDIOT'' \<in> PROFANITY_SET \<and> 30 \<le> length (strip body) \<and>
       contains_profanity body \<and> contains_profanity (strip body) \<and>
       fst r = Inr ST_CONTENT \<and> violations (snd r) 5 = Some 1)"
proof -
  have h1: "lower ''IDIOT'' \<in> PROFANITY_SET" by code_simp
  have h2: "''  This teacher is a complete '' = [] \<or> \<not> is_word_char (last ''  This teacher is a complete '')"
    by code_simp
  have h3: "'', really the worst I have seen  '' = [] \<or> \<not> is_word_char (hd '', really the worst I have seen  '')"
    by code_simp
  have len: "30 \<le> length (strip (''  This teacher is a complete '' @ ''IDIOT'' @ '', really the worst I have seen  ''))"
    by code_simp
  have notend: "fst (handler_content ''Student'' (\<lambda>d. True) (\<lambda>i. 0) 5
              (''  This teacher is a complete '' @ ''IDIOT'' @ '', really the worst I have seen  '')
              (bot_init\<lparr>sessions := [5 \<mapsto> (Session_init 5)\<lparr>draft := Some (Draft_init ''ab12cd34'' 0)\<rparr>]\<rparr>)) \<noteq> Inr END"
    using len token_flagged[OF h1 h2 h3] contains_profanity_strip
    by (simp add: handler_content_def Let_def session_def bot_init_def add_violation_def MAX_PROFANITY_STRIKES_def)
  show ?thesis
    unfolding Let_def
    using forbidden_token_rejected [OF h1 h2 h3, of "''Student''" "\<lambda>d. True" "\<lambda>i. 0" 5
      "bot_init\<lparr>sessions := [5 \<mapsto> (Session_init 5)\<lparr>draft := Some (Draft_init ''ab12cd34'' 0)\<rparr>]\<rparr>"]
      h1 len notend
    by (simp add: bot_init_def)
qed

section \<open>Properties of submission\<close>

lemma rate_limit_ok_retained:
  "rate_limit_ok rl uid now =
     (if allowance rl uid now = 0 then (False, rl)
      else (True, rl(uid \<mapsto> retained rl uid now @ [now])))"
  by (simp add: rate_limit_ok_def allowance_def retained_def timestamps_of_def Let_def)

lemma retained_after_admit:
  assumes "\<forall>s \<in> set (retained rl uid now). s > now' - hour" and "now > now' - hour"
  shows "retained (rl(uid \<mapsto> retained rl uid now @ [now])) uid now' = retained rl uid now @ [now]"
proof -
  define X where "X = retained rl uid now @ [now]"
  have live: "\<forall>s \<in> set X. s > now' - hour" using assms by (auto simp: X_def)
  have "retained (rl(uid \<mapsto> X)) uid now' = filter (\<lambda>t. t > now' - hour) X"
    by (simp add: retained_def timestamps_of_def)
  also have "\<dots> = X" using live by (rule filter_all_live)
  finally show ?thesis by (simp add: X_def)
qed

lemma submit_loop_run:
  assumes "within_window (map clock [i..<i + length ds])"
    and "\<forall>s \<in> set (retained (ratelimits st) uid (clock i)). \<forall>j. i < j \<and> j < i + length ds \<longrightarrow> s > clock j - hour"
  shows "submit_loop display admin_ok clock uid i ds submitted st =
           (let k = min (length ds) (allowance (ratelimits st) uid (clock i))
            in st\<lparr>ratelimits := (if k = 0 then ratelimits st
                                  else (ratelimits st)(uid \<mapsto> retained (ratelimits st) uid (clock i) @ map clock [i..<i + k])),
                   contexts := pending_all uid (take k ds) (contexts st),
                   outbox := outbox st @ map (\<lambda>d. Send ADMIN_ID (ADMIN_REVIEW display uid d)) (take k ds) @
                             (if k < length ds
                              then [Send uid (ERR_RATE_LIMIT (submitted + int (length (filter admin_ok (take k ds)))))]
                              else [])\<rparr>)"
  using assms
proof (induction ds arbitrary: i submitted st)
  case Nil
  then show ?case by (simp add: pending_all_def)
next
  case (Cons d ds)
  let ?rl = "ratelimits st"
  let ?a = "allowance ?rl uid (clock i)"
  show ?case
  proof (cases "?a = 0")
    case True
    then show ?thesis by (simp add: rate_limit_ok_retained send_def pending_all_def)
  next
    case False
    let ?ret = "retained ?rl uid (clock i)"
    let ?rl' = "?rl(uid \<mapsto> ?ret @ [clock i])"
    let ?st1 = "send ADMIN_ID (ADMIN_REVIEW display uid d)
                  (set_ctx (pending_key d) (pending_data uid d) (st\<lparr>ratelimits := ?rl'\<rparr>))"
    let ?sub = "if admin_ok d then submitted + 1 else submitted"
    have step: "submit_loop display admin_ok clock uid i (d # ds) submitted st =
                  submit_loop display admin_ok clock uid (Suc i) ds ?sub ?st1"
      using False by (simp add: rate_limit_ok_retained)
    have rl1: "ratelimits ?st1 = ?rl'" by (simp add: send_def set_ctx_def)
    have upt: "[i..<i + length (d # ds)] = i # [Suc i..<Suc i + length ds]"
      by (subst upt_rec) simp
    have ww0: "within_window (clock i # map clock [Suc i..<Suc i + length ds])"
      using Cons.prems(1) unfolding upt by (simp only: list.map)
    have ww: "within_window (map clock [Suc i..<Suc i + length ds])"
      using ww0 by (simp only: within_window.simps)
    have la: "list_all (\<lambda>t'. clock i > t' - hour) (map clock [Suc i..<Suc i + length ds])"
      using ww0 by (simp only: within_window.simps)
    have later: "\<forall>j. i < j \<and> j < Suc i + length ds \<longrightarrow> clock i > clock j - hour"
    proof (intro allI impI)
      fix j
      assume j: "i < j \<and> j < Suc i + length ds"
      have "j \<in> {Suc i..<Suc i + length ds}" using j by auto
      then have "j \<in> set [Suc i..<Suc i + length ds]" by (simp only: set_upt)
      then have "clock j \<in> set (map clock [Suc i..<Suc i + length ds])"
        by (simp only: set_map) (rule imageI)
      then show "clock i > clock j - hour" using la unfolding list_all_iff by blast
    qed
    have ret1: "ds \<noteq> [] \<Longrightarrow> retained ?rl' uid (clock (Suc i)) = ?ret @ [clock i]"
    proof -
      assume ne: "ds \<noteq> []"
      then have j: "i < Suc i \<and> Suc i < i + length (d # ds)" by (cases ds) auto
      show ?thesis
        using Cons.prems(2) later j by (intro retained_after_admit) auto
    qed
    show ?thesis
    proof (cases ds)
      case Nil
      have one: "min (length [d]) ?a = 1" using False by simp
      show ?thesis
        using False by (simp add: Nil rate_limit_ok_retained Let_def one pending_all_def send_def set_ctx_def)
    next
      case (Cons d' ds')
      then have ne: "ds \<noteq> []" by simp
      have ret: "retained (ratelimits ?st1) uid (clock (Suc i)) = ?ret @ [clock i]"
        unfolding rl1 by (rule ret1[OF ne])
      have a1: "allowance (ratelimits ?st1) uid (clock (Suc i)) = ?a - 1"
        unfolding allowance_def ret by (simp add: allowance_def)
      have hyp2: "\<forall>s \<in> set (retained (ratelimits ?st1) uid (clock (Suc i))).
                    \<forall>j. Suc i < j \<and> j < Suc i + length ds \<longrightarrow> s > clock j - hour"
        unfolding ret using Cons.prems(2) later by auto
      define k' where "k' = min (length ds) (?a - 1)"
      let ?msg = "\<lambda>d. Send ADMIN_ID (ADMIN_REVIEW display uid d)"
      have ih: "submit_loop display admin_ok clock uid (Suc i) ds ?sub ?st1 =
                  ?st1\<lparr>ratelimits := (if k' = 0 then ?rl'
                                        else ?rl'(uid \<mapsto> (?ret @ [clock i]) @ map clock [Suc i..<Suc i + k'])),
                        contexts := pending_all uid (take k' ds) (contexts ?st1),
                        outbox := outbox ?st1 @ map ?msg (take k' ds) @
                                  (if k' < length ds
                                   then [Send uid (ERR_RATE_LIMIT (?sub + int (length (filter admin_ok (take k' ds)))))]
                                   else [])\<rparr>"
      proof -
        have ret': "retained ?rl' uid (clock (Suc i)) = ?ret @ [clock i]" using ret unfolding rl1 .
        have a1': "allowance ?rl' uid (clock (Suc i)) = ?a - 1" using a1 unfolding rl1 .
        show ?thesis
          using Cons.IH[OF ww hyp2, of ?sub]
          unfolding Let_def rl1 ret' a1' k'_def[symmetric] .
      qed
      have k: "min (length (d # ds)) ?a = Suc k'" using False by (auto simp: k'_def)
      have uptk: "[i..<i + Suc k'] = i # [Suc i..<Suc i + k']"
        by (subst upt_rec) simp
      have R: "(if k' = 0 then ?rl' else ?rl'(uid \<mapsto> (?ret @ [clock i]) @ map clock [Suc i..<Suc i + k'])) =
               ?rl(uid \<mapsto> ?ret @ map clock [i..<i + Suc k'])"
        unfolding uptk by (cases "k' = 0") simp_all
      have C: "pending_all uid (take k' ds) (contexts ?st1) =
               pending_all uid (take (Suc k') (d # ds)) (contexts st)"
        by (simp add: pending_all_def send_def set_ctx_def)
      have O: "outbox ?st1 @ map ?msg (take k' ds) @
                 (if k' < length ds
                  then [Send uid (ERR_RATE_LIMIT (?sub + int (length (filter admin_ok (take k' ds)))))]
                  else []) =
               outbox st @ map ?msg (take (Suc k') (d # ds)) @
                 (if Suc k' < length (d # ds)
                  then [Send uid (ERR_RATE_LIMIT (submitted + int (length (filter admin_ok (take (Suc k') (d # ds))))))]
                  else [])"
        by (simp add: send_def set_ctx_def)
      have rebase: "?st1\<lparr>ratelimits := X, contexts := Y, outbox := Z\<rparr> =
                    st\<lparr>ratelimits := X, contexts := Y, outbox := Z\<rparr>" for X Y Z
        by (simp add: send_def set_ctx_def)
      have nz: "(Suc k' = 0) = False" by simp
      show ?thesis
        unfolding step ih Let_def k R C O rebase nz if_False ..
    qed
  qed
qed


lemma pending_key_inj: "pending_key d = pending_key d' \<longleftrightarrow> draft_id d = draft_id d'"
  by (simp add: pending_key_def)

lemma pending_all_miss:
  "key \<notin> pending_key ` set ds \<Longrightarrow> pending_all uid ds c key = c key"
  by (induction ds arbitrary: c) (auto simp: pending_all_def)

lemma pending_all_hit:
  assumes "distinct (map draft_id ds)" and "d \<in> set ds"
  shows "pending_all uid ds c (pending_key d) = Some (pending_data uid d)"
  using assms
proof (induction ds arbitrary: c)
  case Nil
  then show ?case by simp
next
  case (Cons x xs)
  have unfold: "pending_all uid (x # xs) c = pending_all uid xs (c(pending_key x \<mapsto> pending_data uid x))"
    by (simp add: pending_all_def)
  show ?case
  proof (cases "d \<in> set xs")
    case True
    then show ?thesis unfolding unfold using Cons.IH Cons.prems(1) by simp
  next
    case False
    then have dx: "d = x" using Cons.prems(2) by simp
    have "draft_id x \<notin> draft_id ` set xs" using Cons.prems(1) by simp
    then have "pending_key x \<notin> pending_key ` set xs"
      by (auto simp: pending_key_inj)
    then show ?thesis unfolding unfold dx by (simp add: pending_all_miss)
  qed
qed

lemma pending_keys_card:
  assumes "distinct (map draft_id ds)"
  shows "card (pending_key ` set ds) = length ds"
proof -
  have "inj_on pending_key (set ds)"
    using assms by (auto simp: inj_on_def pending_key_inj distinct_map)
  then have "distinct (map pending_key ds)" using assms by (simp add: distinct_map)
  then have "card (set (map pending_key ds)) = length (map pending_key ds)" by (rule distinct_card)
  then show ?thesis by simp
qed

lemma do_submit_run:
  assumes "sessions st uid = Some sess" and "drafts sess \<noteq> []"
    and "within_window (map clock [0..<length (drafts sess)])"
    and "\<forall>s \<in> set (retained (ratelimits st) uid (clock 0)).
           \<forall>j. 0 < j \<and> j < length (drafts sess) \<longrightarrow> s > clock j - hour"
    and "k = min (length (drafts sess)) (allowance (ratelimits st) uid (clock 0))"
  shows "do_submit display admin_ok clock uid has_update st =
           (END,
            st\<lparr>sessions := (sessions st)(uid := None),
               ratelimits := (if k = 0 then ratelimits st
                              else (ratelimits st)(uid \<mapsto> retained (ratelimits st) uid (clock 0) @ map clock [0..<k])),
               contexts := pending_all uid (take k (drafts sess)) (contexts st),
               outbox := outbox st @ (if has_update then [Send uid TRANSMITTING] else []) @
                         map (\<lambda>d. Send ADMIN_ID (ADMIN_REVIEW display uid d)) (take k (drafts sess)) @
                         (if k < length (drafts sess)
                          then [Send uid (ERR_RATE_LIMIT (int (length (filter admin_ok (take k (drafts sess))))))]
                          else []) @
                         [Send uid SUCCESS_SUBMITTED]\<rparr>)"
proof -
  let ?st1 = "if has_update then send uid TRANSMITTING st else st"
  have sess: "session uid st = (sess, st)" using assms(1) by (simp add: session_def)
  have rl: "ratelimits ?st1 = ratelimits st" by (simp add: send_def)
  have w: "within_window (map clock [0..<0 + length (drafts sess)])" using assms(3) by simp
  have h: "\<forall>s \<in> set (retained (ratelimits ?st1) uid (clock 0)).
             \<forall>j. 0 < j \<and> j < 0 + length (drafts sess) \<longrightarrow> s > clock j - hour"
    unfolding rl using assms(4) by simp
  have loop: "submit_loop display admin_ok clock uid 0 (drafts sess) 0 ?st1 =
           ?st1\<lparr>ratelimits := (if k = 0 then ratelimits st
                                  else (ratelimits st)(uid \<mapsto> retained (ratelimits st) uid (clock 0) @ map clock [0..<0 + k])),
                   contexts := pending_all uid (take k (drafts sess)) (contexts ?st1),
                   outbox := outbox ?st1 @ map (\<lambda>d. Send ADMIN_ID (ADMIN_REVIEW display uid d)) (take k (drafts sess)) @
                             (if k < length (drafts sess)
                              then [Send uid (ERR_RATE_LIMIT (0 + int (length (filter admin_ok (take k (drafts sess))))))]
                              else [])\<rparr>"
    using submit_loop_run[OF w h, of display admin_ok 0]
    unfolding Let_def rl assms(5)[symmetric] .
  show ?thesis
    unfolding do_submit_def sess prod.case Let_def loop
    using assms(2) by (simp add: send_def sessions_pop_def)
qed


text \<open>
  Claim C5. A user with a session holding the committed drafts \<open>ds\<close> (with distinct ids)
  submits them, every check falling in one trailing window. Let \<open>k\<close> be the smaller of the
  number of drafts and the user's remaining allowance. The admission check runs draft by
  draft: each of the first \<open>k\<close> drafts is admitted and adds one timestamp to the user's
  record, so a batch cannot pass as one submission. Exactly those \<open>k\<close> drafts get a pending
  context entry, under \<open>k\<close> different keys, and are sent to the admin; every other key of the
  context store is untouched. When \<open>k\<close> is less than the number of drafts, the check of
  draft \<open>k\<close> fails, nothing more is emitted, and one rate-limit notice tells the user how many
  reviews were sent (those whose delivery to the admin succeeded). The session is removed
  afterwards in every case. With three drafts and an allowance of two this gives two
  pending entries and one rate-limit notice.
\<close>

theorem do_submit_per_draft_rate_limit:
  assumes "sessions st uid = Some sess" and "drafts sess \<noteq> []"
    and "within_window (map clock [0..<length (drafts sess)])"
    and "\<forall>s \<in> set (retained (ratelimits st) uid (clock 0)).
           \<forall>j. 0 < j \<and> j < length (drafts sess) \<longrightarrow> s > clock j - hour"
    and "k = min (length (drafts sess)) (allowance (ratelimits st) uid (clock 0))"
    and "distinct (map draft_id (drafts sess))"
  shows "fst (do_submit display admin_ok clock uid has_update st) = END \<and>
         sessions (snd (do_submit display admin_ok clock uid has_update st)) uid = None \<and>
         (\<forall>d \<in> set (take k (drafts sess)).
            contexts (snd (do_submit display admin_ok clock uid has_update st)) (pending_key d) =
              Some (pending_data uid d)) \<and>
         (\<forall>key. key \<notin> pending_key ` set (take k (drafts sess)) \<longrightarrow>
            contexts (snd (do_submit display admin_ok clock uid has_update st)) key = contexts st key) \<and>
         card (pending_key ` set (take k (drafts sess))) = k \<and>
         timestamps_of (ratelimits (snd (do_submit display admin_ok clock uid has_update st))) uid =
           (if k = 0 then timestamps_of (ratelimits st) uid
            else retained (ratelimits st) uid (clock 0) @ map clock [0..<k]) \<and>
         outbox (snd (do_submit display admin_ok clock uid has_update st)) =
           outbox st @ (if has_update then [Send uid TRANSMITTING] else []) @
           map (\<lambda>d. Send ADMIN_ID (ADMIN_REVIEW display uid d)) (take k (drafts sess)) @
           (if k < length (drafts sess)
            then [Send uid (ERR_RATE_LIMIT (int (length (filter admin_ok (take k (drafts sess))))))]
            else []) @
           [Send uid SUCCESS_SUBMITTED]"
proof -
  note run = do_submit_run[OF assms(1-5), of display admin_ok has_update]
  have dk: "distinct (map draft_id (take k (drafts sess)))"
    using assms(6) by (simp add: take_map[symmetric] distinct_take)
  have hit: "\<forall>d \<in> set (take k (drafts sess)).
               pending_all uid (take k (drafts sess)) (contexts st) (pending_key d) = Some (pending_data uid d)"
    using pending_all_hit[OF dk] by blast
  have miss: "\<forall>key. key \<notin> pending_key ` set (take k (drafts sess)) \<longrightarrow>
               pending_all uid (take k (drafts sess)) (contexts st) key = contexts st key"
    using pending_all_miss by blast
  have kle: "k \<le> length (drafts sess)" using assms(5) by simp
  have card: "card (pending_key ` set (take k (drafts sess))) = k"
    using pending_keys_card[OF dk] kle by simp
  show ?thesis
    unfolding run using hit miss card by (simp add: timestamps_of_def)
qed

theorem do_submit_per_draft_rate_limit_witness:
  "(let d1 = (Draft_init ''aaaaaaa1'' 0)\<lparr>teacher := ''Dr. A''\<rparr>;
        d2 = (Draft_init ''aaaaaaa2'' 0)\<lparr>teacher := ''Dr. B''\<rparr>;
        d3 = (Draft_init ''aaaaaaa3'' 0)\<lparr>teacher := ''Dr. C''\<rparr>;
        sess = (Session_init 5)\<lparr>drafts := [d1, d2, d3]\<rparr>;
        st = bot_init\<lparr>sessions := [5 \<mapsto> sess], ratelimits := [5 \<mapsto> [- 30, - 20, - 10]]\<rparr>;
        r = do_submit ''Student'' (\<lambda>d. True) (\<lambda>i. int i) 5 True st
    in allowance (ratelimits st) 5 0 = 2 \<and>
       fst r = END \<and> sessions (snd r) 5 = None \<and>
       contexts (snd r) ''pending_aaaaaaa1'' = Some (pending_data 5 d1) \<and>
       contexts (snd r) ''pending_aaaaaaa2'' = Some (pending_data 5 d2) \<and>
       contexts (snd r) ''pending_aaaaaaa3'' = None \<and>
       ratelimits (snd r) 5 = Some [- 30, - 20, - 10, 0, 1] \<and>
       outbox (snd r) =
         [Send 5 TRANSMITTING, Send ADMIN_ID (ADMIN_REVIEW ''Student'' 5 d1),
          Send ADMIN_ID (ADMIN_REVIEW ''Student'' 5 d2), Send 5 (ERR_RATE_LIMIT 2),
          Send 5 SUCCESS_SUBMITTED])"
proof -
  define d1 where "d1 = (Draft_init ''aaaaaaa1'' 0)\<lparr>teacher := ''Dr. A''\<rparr>"
  define d2 where "d2 = (Draft_init ''aaaaaaa2'' 0)\<lparr>teacher := ''Dr. B''\<rparr>"
  define d3 where "d3 = (Draft_init ''aaaaaaa3'' 0)\<lparr>teacher := ''Dr. C''\<rparr>"
  define sess where "sess = (Session_init 5)\<lparr>drafts := [d1, d2, d3]\<rparr>"
  define st where "st = bot_init\<lparr>sessions := [5 \<mapsto> sess], ratelimits := [5 \<mapsto> [- 30, - 20, - 10]]\<rparr>"
  have ds: "drafts sess = [d1, d2, d3]" by (simp add: sess_def Session_init_def)
  have ret: "retained (ratelimits st) 5 0 = [- 30, - 20, - 10]"
    by (simp add: st_def bot_init_def retained_def timestamps_of_def hour_def)
  have al: "allowance (ratelimits st) 5 0 = 2"
    unfolding allowance_def ret by (simp add: MAX_REVIEWS_PER_HOUR_def)
  have h1: "sessions st 5 = Some sess" by (simp add: st_def bot_init_def)
  have h2: "drafts sess \<noteq> []" by (simp add: ds)
  have h3: "within_window (map (\<lambda>i. int i) [0..<length (drafts sess)])"
    by (simp add: ds hour_def upt_rec)
  have h4: "\<forall>s \<in> set (retained (ratelimits st) 5 (int 0)).
              \<forall>j. 0 < j \<and> j < length (drafts sess) \<longrightarrow> s > int j - hour"
    using ret by (simp add: ds hour_def)
  have h5: "2 = min (length (drafts sess)) (allowance (ratelimits st) 5 (int 0))"
    using al by (simp add: ds)
  have h6: "distinct (map draft_id (drafts sess))"
    by (simp add: ds d1_def d2_def d3_def Draft_init_def)
  have keys: "pending_key d1 = ''pending_aaaaaaa1''" "pending_key d2 = ''pending_aaaaaaa2''"
    by (simp_all add: pending_key_def d1_def d2_def Draft_init_def)
  have c0: "contexts st = Map.empty" by (simp add: st_def bot_init_def)
  have o0: "outbox st = []" by (simp add: st_def bot_init_def)
  note t = do_submit_per_draft_rate_limit [OF h1 h2 h3 h4 h5 h6, of "''Student''" "\<lambda>d. True" True]
  have res: "allowance (ratelimits st) 5 0 = 2 \<and>
       fst (do_submit ''Student'' (\<lambda>d. True) (\<lambda>i. int i) 5 True st) = END \<and>
       sessions (snd (do_submit ''Student'' (\<lambda>d. True) (\<lambda>i. int i) 5 True st)) 5 = None \<and>
       contexts (snd (do_submit ''Student'' (\<lambda>d. True) (\<lambda>i. int i) 5 True st)) ''pending_aaaaaaa1'' = Some (pending_data 5 d1) \<and>
       contexts (snd (do_submit ''Student'' (\<lambda>d. True) (\<lambda>i. int i) 5 True st)) ''pending_aaaaaaa2'' = Some (pending_data 5 d2) \<and>
       contexts (snd (do_submit ''Student'' (\<lambda>d. True) (\<lambda>i. int i) 5 True st)) ''pending_aaaaaaa3'' = None \<and>
       ratelimits (snd (do_submit ''Student'' (\<lambda>d. True) (\<lambda>i. int i) 5 True st)) 5 = Some [- 30, - 20, - 10, 0, 1] \<and>
       outbox (snd (do_submit ''Student'' (\<lambda>d. True) (\<lambda>i. int i) 5 True st)) =
         [Send 5 TRANSMITTING, Send ADMIN_ID (ADMIN_REVIEW ''Student'' 5 d1),
          Send ADMIN_ID (ADMIN_REVIEW ''Student'' 5 d2), Send 5 (ERR_RATE_LIMIT 2),
          Send 5 SUCCESS_SUBMITTED]"
  proof -
    let ?r = "do_submit ''Student'' (\<lambda>d. True) (\<lambda>i. int i) 5 True st"
    have a: "fst ?r = END" "sessions (snd ?r) 5 = None" using t by simp_all
    have hitall: "\<forall>d \<in> set (take 2 (drafts sess)). contexts (snd ?r) (pending_key d) = Some (pending_data 5 d)"
      using t by blast
    have b1: "contexts (snd ?r) ''pending_aaaaaaa1'' = Some (pending_data 5 d1)"
      using hitall keys(1) by (simp add: ds)
    have b2: "contexts (snd ?r) ''pending_aaaaaaa2'' = Some (pending_data 5 d2)"
      using hitall keys(2) by (simp add: ds)
    have missall: "\<forall>key. key \<notin> pending_key ` set (take 2 (drafts sess)) \<longrightarrow> contexts (snd ?r) key = contexts st key"
      using t by blast
    have "''pending_aaaaaaa3'' \<notin> pending_key ` set (take 2 (drafts sess))"
      by (simp add: ds keys)
    then have b3: "contexts (snd ?r) ''pending_aaaaaaa3'' = None" using missall c0 by simp
    have tsr: "timestamps_of (ratelimits (snd ?r)) 5 = [- 30, - 20, - 10] @ map (\<lambda>i. int i) [0..<2]"
      using t ret by simp
    have ne: "ratelimits (snd ?r) 5 \<noteq> None"
      using do_submit_run[OF h1 h2 h3 h4 h5, of "''Student''" "\<lambda>d. True" True] by simp
    have c: "ratelimits (snd ?r) 5 = Some [- 30, - 20, - 10, 0, 1]"
      using tsr ne by (auto simp: timestamps_of_def upt_rec split: option.splits)
    have d: "outbox (snd ?r) =
         [Send 5 TRANSMITTING, Send ADMIN_ID (ADMIN_REVIEW ''Student'' 5 d1),
          Send ADMIN_ID (ADMIN_REVIEW ''Student'' 5 d2), Send 5 (ERR_RATE_LIMIT 2),
          Send 5 SUCCESS_SUBMITTED]"
      using t o0 by (simp add: ds)
    show ?thesis using al a b1 b2 b3 c d by simp
  qed
  show ?thesis
    unfolding Let_def
    using res unfolding st_def sess_def d1_def d2_def d3_def .
qed

section \<open>Properties of threads\<close>

lemma cmd_start_resume:
  assumes "\<not> is_banned uid st" and "contexts st token = Some e"
  shows "cmd_start did now uid [''add_'' @ token] st =
           (ST_RATING,
            send uid (WELCOME_DEEP (ctx_teacher e) (ctx_subject e))
              (st\<lparr>sessions := (sessions st)(uid \<mapsto> (Session_init uid)\<lparr>draft := Some (seeded_draft did now e)\<rparr>)\<rparr>))"
  using assms
  by (simp add: cmd_start_def session_def get_ctx_def Let_def new_draft_def seeded_draft_def
      Session_init_def Draft_init_def)

lemma cmd_start_rating_only:
  assumes "fst (cmd_start did now uid [''add_'' @ token] st) = ST_RATING"
  shows "\<not> is_banned uid st \<and> contexts st token \<noteq> None"
  using assms
  by (auto simp: cmd_start_def session_def get_ctx_def Let_def send_def split: if_splits option.splits)

lemma approve_pending:
  assumes "contexts st (''pending_'' @ rev_id) = Some data"
    and "ctx_rating data = Some r" and "ctx_content data = Some c"
  shows "approve token (Some message_id) now user_id rev_id st =
           Inr (st\<lparr>contexts := (contexts st)(token \<mapsto> resume_data data
                                   (case ctx_parent_msg_id data of None \<Rightarrow> message_id
                                    | Some p \<Rightarrow> if p \<noteq> 0 then p else message_id)),
                   reviews := reviews st @
                     [\<lparr>rv_teacher = ctx_teacher data, rv_subject = ctx_subject data,
                       rv_stream = ctx_stream data, rv_year = ctx_year data,
                       rv_rating = r, rv_content = c, rv_timestamp = now, rv_msg_id = message_id\<rparr>],
                   members_cache := insert user_id (members_cache st),
                   members := insert user_id (members st),
                   outbox := outbox st @
                     [Send CHANNEL_ID (CHANNEL_POST (case ctx_is_additional data of None \<Rightarrow> False | Some b \<Rightarrow> b)
                                         (ctx_subject data) (ctx_teacher data) r c rev_id (ctx_parent_msg_id data)),
                      Send user_id REVIEW_APPROVED, Send ADMIN_ID APPROVED_AND_POSTED]\<rparr>)"
  using assms
  by (simp add: approve_def get_ctx_def Let_def send_def set_ctx_def)


lemma cb_rating_draft:
  assumes "sessions st uid = Some sess" and "draft sess = Some d"
  shows "cb_rating uid r st =
           (Inr ST_CONTENT,
            send uid (RATING_SET r)
              (st\<lparr>sessions := (sessions st)(uid \<mapsto> sess\<lparr>draft := Some (d\<lparr>rating := r\<rparr>)\<rparr>)\<rparr>))"
  using assms by (simp add: cb_rating_def session_def)

lemma handler_content_followup:
  assumes "sessions st uid = Some sess" and "draft sess = Some d" and "drafts sess = []"
    and "is_additional d"
    and "30 \<le> length (strip body)" and "\<not> contains_profanity (strip body)"
    and "0 < allowance (ratelimits st) uid now"
  shows "fst (handler_content display admin_ok (\<lambda>i. now) uid body st) = Inr END \<and>
         contexts (snd (handler_content display admin_ok (\<lambda>i. now) uid body st)) =
           (contexts st)(pending_key (d\<lparr>content := strip body\<rparr>) \<mapsto>
                           pending_data uid (d\<lparr>content := strip body\<rparr>)) \<and>
         set (outbox st) \<subseteq> set (outbox (snd (handler_content display admin_ok (\<lambda>i. now) uid body st)))"
proof -
  let ?d = "d\<lparr>content := strip body\<rparr>"
  let ?sess1 = "sess\<lparr>draft := None, drafts := [?d]\<rparr>"
  let ?st1 = "st\<lparr>sessions := (sessions st)(uid \<mapsto> ?sess1)\<rparr>"
  have s: "session uid st = (sess, st)" using assms(1) by (simp add: session_def)
  have c: "commit_draft (sess\<lparr>draft := Some ?d\<rparr>) = ?sess1"
    using assms(3) by (simp add: commit_draft_def)
  have nshort: "\<not> length (strip body) < 30" using assms(5) by simp
  have hc: "handler_content display admin_ok (\<lambda>i. now) uid body st =
              (case do_submit display admin_ok (\<lambda>i. now) uid True ?st1 of
                 (next_state, st2) \<Rightarrow> (Inr next_state, st2))"
    unfolding handler_content_def Let_def s prod.case
    using nshort assms(2,4,6) by (simp add: c)
  have h1: "sessions ?st1 uid = Some ?sess1" by simp
  have h2: "drafts ?sess1 \<noteq> []" by simp
  have h3: "within_window (map (\<lambda>i. now) [0..<length (drafts ?sess1)])" by simp
  have h4: "\<forall>s \<in> set (retained (ratelimits ?st1) uid now).
              \<forall>j. 0 < j \<and> j < length (drafts ?sess1) \<longrightarrow> s > now - hour" by simp
  have h5: "1 = min (length (drafts ?sess1)) (allowance (ratelimits ?st1) uid now)"
    using assms(7) by simp
  note run = do_submit_run[where clock = "\<lambda>i. now", OF h1 h2 h3 h4 h5, of display admin_ok True]
  show ?thesis unfolding hc run by (auto simp: pending_all_def)
qed

lemma handler_content_end_long:
  assumes "fst (handler_content display admin_ok clock uid body st) = Inr END"
    and "\<not> contains_profanity (strip body)"
  shows "30 \<le> length (strip body)"
proof (rule ccontr)
  assume "\<not> 30 \<le> length (strip body)"
  then have "length (strip body) < 30" by simp
  then have "fst (handler_content display admin_ok clock uid body st) = Inr ST_CONTENT"
    by (simp add: handler_content_def Let_def split: prod.splits)
  then show False using assms(1) by simp
qed

lemma followup_round_parent:
  assumes some: "followup_round f token st = Some st4"
    and ok: "reaches_moderator f st"
    and ctx: "contexts st token = Some e"
    and par: "ctx_parent_msg_id e = Some p" and nz: "p \<noteq> 0"
  shows "(\<exists>e'. contexts st4 (fu_token f) = Some e' \<and> ctx_parent_msg_id e' = Some p \<and>
              ctx_teacher e' = ctx_teacher e \<and> ctx_subject e' = ctx_subject e) \<and>
         Send CHANNEL_ID (CHANNEL_POST True (ctx_subject e) (ctx_teacher e) (fu_rating f)
                            (strip (fu_text f)) (fu_draft_id f) (Some p)) \<in> set (outbox st4) \<and>
         set (outbox st) \<subseteq> set (outbox st4)"
proof -
  let ?uid = "fu_uid f"
  let ?d0 = "seeded_draft (fu_draft_id f) (fu_now f) e"
  have r1: "fst (cmd_start (fu_draft_id f) (fu_now f) ?uid [''add_'' @ token] st) = ST_RATING"
    using some by (auto simp: followup_round_def split: prod.splits if_splits)
  have nb: "\<not> is_banned ?uid st" using cmd_start_rating_only[OF r1] by simp
  let ?S1 = "(Session_init ?uid)\<lparr>draft := Some ?d0\<rparr>"
  let ?st1 = "send ?uid (WELCOME_DEEP (ctx_teacher e) (ctx_subject e))
                (st\<lparr>sessions := (sessions st)(?uid \<mapsto> ?S1)\<rparr>)"
  have e1: "cmd_start (fu_draft_id f) (fu_now f) ?uid [''add_'' @ token] st = (ST_RATING, ?st1)"
    by (rule cmd_start_resume[OF nb ctx])
  let ?d1 = "?d0\<lparr>rating := fu_rating f\<rparr>"
  let ?S2 = "?S1\<lparr>draft := Some ?d1\<rparr>"
  let ?st2 = "send ?uid (RATING_SET (fu_rating f)) (?st1\<lparr>sessions := (sessions ?st1)(?uid \<mapsto> ?S2)\<rparr>)"
  have s1: "sessions ?st1 ?uid = Some ?S1" by (simp add: send_def)
  have e2: "cb_rating ?uid (fu_rating f) ?st1 = (Inr ST_CONTENT, ?st2)"
    by (rule cb_rating_draft[OF s1]) simp
  let ?hc = "handler_content (fu_display f) (fu_admin_ok f) (\<lambda>i. fu_now f) ?uid (fu_text f) ?st2"
  have r3: "fst ?hc = Inr END"
    using some unfolding followup_round_def e1 e2 prod.case
    by (auto split: prod.splits if_splits)
  have clean: "\<not> contains_profanity (strip (fu_text f))" using ok by (simp add: reaches_moderator_def)
  have long: "30 \<le> length (strip (fu_text f))" by (rule handler_content_end_long[OF r3 clean])
  have s2: "sessions ?st2 ?uid = Some ?S2" by (simp add: send_def)
  have rl2: "ratelimits ?st2 = ratelimits st" by (simp add: send_def)
  have al: "0 < allowance (ratelimits ?st2) ?uid (fu_now f)"
    unfolding rl2 using ok by (simp add: reaches_moderator_def)
  let ?d2 = "?d1\<lparr>content := strip (fu_text f)\<rparr>"
  have hc: "fst ?hc = Inr END \<and>
            contexts (snd ?hc) = (contexts ?st2)(pending_key ?d2 \<mapsto> pending_data ?uid ?d2) \<and>
            set (outbox ?st2) \<subseteq> set (outbox (snd ?hc))"
    by (rule handler_content_followup[OF s2 _ _ _ long clean al])
       (simp_all add: Session_init_def seeded_draft_def)
  have key: "pending_key ?d2 = ''pending_'' @ fu_draft_id f"
    by (simp add: pending_key_def seeded_draft_def Draft_init_def)
  let ?data = "pending_data ?uid ?d2"
  have pend: "contexts (snd ?hc) (''pending_'' @ fu_draft_id f) = Some ?data"
    using hc key by simp
  have dpar: "ctx_parent_msg_id ?data = Some p"
    using par by (simp add: pending_data_def seeded_draft_def)
  have ap: "approve (fu_token f) (Some (fu_message_id f)) (fu_now f) ?uid (fu_draft_id f) (snd ?hc) = Inr st4"
    using some r3 unfolding followup_round_def e1 e2 prod.case
    by (auto split: prod.splits if_splits sum.splits)
  have ap': "approve (fu_token f) (Some (fu_message_id f)) (fu_now f) ?uid (fu_draft_id f) (snd ?hc) =
             Inr ((snd ?hc)\<lparr>contexts := (contexts (snd ?hc))(fu_token f \<mapsto> resume_data ?data
                                   (case ctx_parent_msg_id ?data of None \<Rightarrow> fu_message_id f
                                    | Some q \<Rightarrow> if q \<noteq> 0 then q else fu_message_id f)),
                   reviews := reviews (snd ?hc) @
                     [\<lparr>rv_teacher = ctx_teacher ?data, rv_subject = ctx_subject ?data,
                       rv_stream = ctx_stream ?data, rv_year = ctx_year ?data,
                       rv_rating = rating ?d2, rv_content = content ?d2, rv_timestamp = fu_now f,
                       rv_msg_id = fu_message_id f\<rparr>],
                   members_cache := insert ?uid (members_cache (snd ?hc)),
                   members := insert ?uid (members (snd ?hc)),
                   outbox := outbox (snd ?hc) @
                     [Send CHANNEL_ID (CHANNEL_POST (case ctx_is_additional ?data of None \<Rightarrow> False | Some b \<Rightarrow> b)
                                         (ctx_subject ?data) (ctx_teacher ?data) (rating ?d2) (content ?d2)
                                         (fu_draft_id f) (ctx_parent_msg_id ?data)),
                      Send ?uid REVIEW_APPROVED, Send ADMIN_ID APPROVED_AND_POSTED]\<rparr>)"
    by (rule approve_pending[OF pend]) (simp_all add: pending_data_def)
  have c4: "contexts st4 (fu_token f) = Some (resume_data ?data p)"
    using ap ap' dpar nz by auto
  have fields: "ctx_teacher (resume_data ?data p) = ctx_teacher e"
    "ctx_subject (resume_data ?data p) = ctx_subject e"
    "ctx_parent_msg_id (resume_data ?data p) = Some p"
    by (simp_all add: resume_data_def pending_data_def seeded_draft_def)
  have o4: "outbox st4 = outbox (snd ?hc) @
                     [Send CHANNEL_ID (CHANNEL_POST (case ctx_is_additional ?data of None \<Rightarrow> False | Some b \<Rightarrow> b)
                                         (ctx_subject ?data) (ctx_teacher ?data) (rating ?d2) (content ?d2)
                                         (fu_draft_id f) (ctx_parent_msg_id ?data)),
                      Send ?uid REVIEW_APPROVED, Send ADMIN_ID APPROVED_AND_POSTED]"
    using ap ap' by auto
  have post: "Send CHANNEL_ID (CHANNEL_POST (case ctx_is_additional ?data of None \<Rightarrow> False | Some b \<Rightarrow> b)
                                         (ctx_subject ?data) (ctx_teacher ?data) (rating ?d2) (content ?d2)
                                         (fu_draft_id f) (ctx_parent_msg_id ?data)) =
              Send CHANNEL_ID (CHANNEL_POST True (ctx_subject e) (ctx_teacher e) (fu_rating f)
                            (strip (fu_text f)) (fu_draft_id f) (Some p))"
    using par by (simp add: pending_data_def seeded_draft_def)
  have in4: "Send CHANNEL_ID (CHANNEL_POST True (ctx_subject e) (ctx_teacher e) (fu_rating f)
                            (strip (fu_text f)) (fu_draft_id f) (Some p)) \<in> set (outbox st4)"
    unfolding o4 post by simp
  have "set (outbox st) \<subseteq> set (outbox ?st2)" by (auto simp: send_def)
  then have mono: "set (outbox st) \<subseteq> set (outbox st4)" using hc unfolding o4 by auto
  show ?thesis using c4 fields in4 mono by simp
qed

lemma followups_parent:
  assumes "followups fs token st = Some (token', st')"
    and "contexts st token = Some e"
    and "ctx_parent_msg_id e = Some p" and "p \<noteq> 0"
  shows "(\<exists>e'. contexts st' token' = Some e' \<and> ctx_parent_msg_id e' = Some p \<and>
              ctx_teacher e' = ctx_teacher e \<and> ctx_subject e' = ctx_subject e) \<and>
         list_all (\<lambda>f. Send CHANNEL_ID (CHANNEL_POST True (ctx_subject e) (ctx_teacher e) (fu_rating f)
                            (strip (fu_text f)) (fu_draft_id f) (Some p)) \<in> set (outbox st')) fs \<and>
         set (outbox st) \<subseteq> set (outbox st')"
  using assms
proof (induction fs arbitrary: token st e)
  case Nil
  then show ?case by simp
next
  case (Cons f fs)
  have ok: "reaches_moderator f st" using Cons.prems(1) by (simp split: if_splits)
  obtain st4 where r: "followup_round f token st = Some st4"
    and rest: "followups fs (fu_token f) st4 = Some (token', st')"
    using Cons.prems(1) ok by (auto split: option.splits)
  note rp = followup_round_parent[OF r ok Cons.prems(2,3,4)]
  obtain e1 where e1: "contexts st4 (fu_token f) = Some e1" "ctx_parent_msg_id e1 = Some p"
    "ctx_teacher e1 = ctx_teacher e" "ctx_subject e1 = ctx_subject e"
    using rp by blast
  have post: "Send CHANNEL_ID (CHANNEL_POST True (ctx_subject e) (ctx_teacher e) (fu_rating f)
                            (strip (fu_text f)) (fu_draft_id f) (Some p)) \<in> set (outbox st4)"
    and mono: "set (outbox st) \<subseteq> set (outbox st4)"
    using rp by blast+
  note ih = Cons.IH[OF rest e1(1,2) Cons.prems(4)]
  have mono': "set (outbox st4) \<subseteq> set (outbox st')" using ih by blast
  show ?case using ih e1(3,4) post mono mono' by auto
qed


text \<open>
  Claim C9. A pending draft is approved and the channel post gets a message id other
  than 0 (Telegram's ids are positive; so is any parent id the draft carries). The linkage
  is the draft's own parent id when it has one, and the id of the new post otherwise. The
  channel post is sent as a reply to the draft's parent id (to none for a first review),
  and the resume entry stored under the fresh token records the linkage. Opening the deep
  link with that token seeds a follow-up draft whose parent is the linkage. After any
  number of follow-ups, each opened with the token of the approval before it, submitted
  and approved, the entry under the last token still records the same linkage, and every
  follow-up was posted as a reply to it.
\<close>

theorem thread_parent_stable:
  assumes "contexts st (''pending_'' @ rev_id) = Some data"
    and "ctx_rating data = Some r" and "ctx_content data = Some c"
    and "message_id \<noteq> 0" and "ctx_parent_msg_id data \<noteq> Some 0"
    and "linkage = (case ctx_parent_msg_id data of None \<Rightarrow> message_id | Some q \<Rightarrow> q)"
    and "approve token (Some message_id) now user_id rev_id st = Inr st0"
    and "followups fs token st0 = Some (token', st')"
  shows "outbox st0 = outbox st @
           [Send CHANNEL_ID (CHANNEL_POST (case ctx_is_additional data of None \<Rightarrow> False | Some b \<Rightarrow> b)
                               (ctx_subject data) (ctx_teacher data) r c rev_id (ctx_parent_msg_id data)),
            Send user_id REVIEW_APPROVED, Send ADMIN_ID APPROVED_AND_POSTED] \<and>
         contexts st0 token = Some (resume_data data linkage) \<and>
         ctx_parent_msg_id (resume_data data linkage) = Some linkage \<and>
         (\<not> is_banned uid st0 \<longrightarrow>
            cmd_start did t uid [''add_'' @ token] st0 =
              (ST_RATING,
               send uid (WELCOME_DEEP (ctx_teacher data) (ctx_subject data))
                 (st0\<lparr>sessions := (sessions st0)(uid \<mapsto>
                    (Session_init uid)\<lparr>draft := Some (seeded_draft did t (resume_data data linkage))\<rparr>)\<rparr>)) \<and>
            parent_msg_id (seeded_draft did t (resume_data data linkage)) = Some linkage \<and>
            is_additional (seeded_draft did t (resume_data data linkage))) \<and>
         (\<exists>e'. contexts st' token' = Some e' \<and> ctx_parent_msg_id e' = Some linkage \<and>
               ctx_teacher e' = ctx_teacher data \<and> ctx_subject e' = ctx_subject data) \<and>
         list_all (\<lambda>f. Send CHANNEL_ID (CHANNEL_POST True (ctx_subject data) (ctx_teacher data) (fu_rating f)
                            (strip (fu_text f)) (fu_draft_id f) (Some linkage)) \<in> set (outbox st')) fs"
proof -
  have link: "(case ctx_parent_msg_id data of None \<Rightarrow> message_id
               | Some p \<Rightarrow> if p \<noteq> 0 then p else message_id) = linkage"
    using assms(5,6) by (auto split: option.splits)
  have nz: "linkage \<noteq> 0" using assms(4,5,6) by (auto split: option.splits)
  note ap = approve_pending[OF assms(1,2,3), of token message_id now user_id, unfolded link]
  have st0: "st0 = st\<lparr>contexts := (contexts st)(token \<mapsto> resume_data data linkage),
                   reviews := reviews st @
                     [\<lparr>rv_teacher = ctx_teacher data, rv_subject = ctx_subject data,
                       rv_stream = ctx_stream data, rv_year = ctx_year data,
                       rv_rating = r, rv_content = c, rv_timestamp = now, rv_msg_id = message_id\<rparr>],
                   members_cache := insert user_id (members_cache st),
                   members := insert user_id (members st),
                   outbox := outbox st @
                     [Send CHANNEL_ID (CHANNEL_POST (case ctx_is_additional data of None \<Rightarrow> False | Some b \<Rightarrow> b)
                                         (ctx_subject data) (ctx_teacher data) r c rev_id (ctx_parent_msg_id data)),
                      Send user_id REVIEW_APPROVED, Send ADMIN_ID APPROVED_AND_POSTED]\<rparr>"
    using ap assms(7) by simp
  have a: "outbox st0 = outbox st @
           [Send CHANNEL_ID (CHANNEL_POST (case ctx_is_additional data of None \<Rightarrow> False | Some b \<Rightarrow> b)
                               (ctx_subject data) (ctx_teacher data) r c rev_id (ctx_parent_msg_id data)),
            Send user_id REVIEW_APPROVED, Send ADMIN_ID APPROVED_AND_POSTED]"
    by (subst st0) simp
  have b: "contexts st0 token = Some (resume_data data linkage)" by (subst st0) simp
  have b': "ctx_parent_msg_id (resume_data data linkage) = Some linkage"
    "ctx_teacher (resume_data data linkage) = ctx_teacher data"
    "ctx_subject (resume_data data linkage) = ctx_subject data"
    by (simp_all add: resume_data_def)
  have c: "\<not> is_banned uid st0 \<longrightarrow>
            cmd_start did t uid [''add_'' @ token] st0 =
              (ST_RATING,
               send uid (WELCOME_DEEP (ctx_teacher data) (ctx_subject data))
                 (st0\<lparr>sessions := (sessions st0)(uid \<mapsto>
                    (Session_init uid)\<lparr>draft := Some (seeded_draft did t (resume_data data linkage))\<rparr>)\<rparr>))"
    using cmd_start_resume[OF _ b, of uid did t] b' by simp
  have c': "parent_msg_id (seeded_draft did t (resume_data data linkage)) = Some linkage"
    "is_additional (seeded_draft did t (resume_data data linkage))"
    by (simp_all add: seeded_draft_def resume_data_def)
  note chain = followups_parent[OF assms(8) b b'(1) nz]
  have d: "\<exists>e'. contexts st' token' = Some e' \<and> ctx_parent_msg_id e' = Some linkage \<and>
               ctx_teacher e' = ctx_teacher data \<and> ctx_subject e' = ctx_subject data"
    using chain b' by auto
  have e: "list_all (\<lambda>f. Send CHANNEL_ID (CHANNEL_POST True (ctx_subject data) (ctx_teacher data) (fu_rating f)
                            (strip (fu_text f)) (fu_draft_id f) (Some linkage)) \<in> set (outbox st')) fs"
    using chain b' by simp
  show ?thesis using a b b'(1) c c' d e by blast
qed

theorem thread_parent_stable_witness:
  "(let dA = (Draft_init ''rev00001'' 0)\<lparr>subject := ''Anatomy'', teacher := ''Dr. A'', rating := 4,
                 content := ''The lectures were clear and the exams were fair overall.''\<rparr>;
        st = bot_init\<lparr>contexts := [''pending_rev00001'' \<mapsto> pending_data 9 dA]\<rparr>;
        f1 = \<lparr>fu_uid = 5, fu_draft_id = ''fu000001'', fu_now = 10, fu_rating = 5,
              fu_text = ''The lectures were clear and the exams were fair overall.'',
              fu_display = ''Student'', fu_admin_ok = (\<lambda>d. True), fu_token = ''tok0000002'',
              fu_message_id = 101\<rparr>;
        f2 = \<lparr>fu_uid = 6, fu_draft_id = ''fu000002'', fu_now = 20, fu_rating = 2,
              fu_text = ''The lectures were clear and the exams were fair overall.'',
              fu_display = ''Student'', fu_admin_ok = (\<lambda>d. True), fu_token = ''tok0000003'',
              fu_message_id = 102\<rparr>
    in case approve ''tok0000001'' (Some 100) 1 9 ''rev00001'' st of
         Inl err \<Rightarrow> False
       | Inr st0 \<Rightarrow>
           map_option ctx_parent_msg_id (contexts st0 ''tok0000001'') = Some (Some 100) \<and>
           (case followups [f1, f2] ''tok0000001'' st0 of
              None \<Rightarrow> False
            | Some (tok, st') \<Rightarrow> tok = ''tok0000003'' \<and>
                 map_option ctx_parent_msg_id (contexts st' ''tok0000003'') = Some (Some 100)))"
proof -
  define dA where "dA = (Draft_init ''rev00001'' 0)\<lparr>subject := ''Anatomy'', teacher := ''Dr. A'', rating := 4,
                 content := ''The lectures were clear and the exams were fair overall.''\<rparr>"
  define st where "st = bot_init\<lparr>contexts := [''pending_rev00001'' \<mapsto> pending_data 9 dA]\<rparr>"
  define f1 where "f1 = \<lparr>fu_uid = 5, fu_draft_id = ''fu000001'', fu_now = 10, fu_rating = 5,
              fu_text = ''The lectures were clear and the exams were fair overall.'',
              fu_display = ''Student'', fu_admin_ok = (\<lambda>d::Draft. True), fu_token = ''tok0000002'',
              fu_message_id = 101\<rparr>"
  define f2 where "f2 = \<lparr>fu_uid = 6, fu_draft_id = ''fu000002'', fu_now = 20, fu_rating = 2,
              fu_text = ''The lectures were clear and the exams were fair overall.'',
              fu_display = ''Student'', fu_admin_ok = (\<lambda>d::Draft. True), fu_token = ''tok0000003'',
              fu_message_id = 102\<rparr>"
  have strip_body: "strip ''The lectures were clear and the exams were fair overall.'' =
     ''The lectures were clear and the exams were fair overall.''"
    by code_simp
  have clean_body: "contains_profanity ''The lectures were clear and the exams were fair overall.'' = False"
    by code_simp
  have run: "\<exists>st0. approve ''tok0000001'' (Some 100) 1 9 ''rev00001'' st = Inr st0 \<and>
               (\<exists>st'. followups [f1, f2] ''tok0000001'' st0 = Some (''tok0000003'', st'))"
    unfolding st_def dA_def f1_def f2_def
    by (simp add: Let_def approve_def get_ctx_def set_ctx_def send_def pending_data_def Draft_init_def
      bot_init_def resume_data_def followup_round_def reaches_moderator_def cmd_start_def
      is_banned_def session_def Session_init_def new_draft_def cb_rating_def handler_content_def
      strip_body clean_body commit_draft_def do_submit_def sessions_pop_def pending_key_def
      rate_limit_ok_def allowance_def retained_def timestamps_of_def MAX_REVIEWS_PER_HOUR_def hour_def)
  then obtain st0 st' where ap: "approve ''tok0000001'' (Some 100) 1 9 ''rev00001'' st = Inr st0"
    and fu: "followups [f1, f2] ''tok0000001'' st0 = Some (''tok0000003'', st')" by blast
  have h1: "contexts st (''pending_'' @ ''rev00001'') = Some (pending_data 9 dA)"
    by (simp add: st_def bot_init_def)
  have h2: "ctx_rating (pending_data 9 dA) = Some 4" by (simp add: pending_data_def dA_def)
  have h3: "ctx_content (pending_data 9 dA) =
              Some ''The lectures were clear and the exams were fair overall.''"
    by (simp add: pending_data_def dA_def)
  have h4: "(100::int) \<noteq> 0" by simp
  have h5: "ctx_parent_msg_id (pending_data 9 dA) \<noteq> Some 0"
    by (simp add: pending_data_def dA_def Draft_init_def)
  have h6: "(100::int) = (case ctx_parent_msg_id (pending_data 9 dA) of None \<Rightarrow> 100 | Some q \<Rightarrow> q)"
    by (simp add: pending_data_def dA_def Draft_init_def)
  note T = thread_parent_stable [OF h1 h2 h3 h4 h5 h6 ap fu, where uid = 5 and did = "''fu000001''" and t = 10]
  have c0: "contexts st0 ''tok0000001'' = Some (resume_data (pending_data 9 dA) 100)"
    and p0: "ctx_parent_msg_id (resume_data (pending_data 9 dA) 100) = Some 100"
    and c1: "\<exists>e'. contexts st' ''tok0000003'' = Some e' \<and> ctx_parent_msg_id e' = Some 100 \<and>
               ctx_teacher e' = ctx_teacher (pending_data 9 dA) \<and>
               ctx_subject e' = ctx_subject (pending_data 9 dA)"
    using T by blast+
  have r0: "map_option ctx_parent_msg_id (contexts st0 ''tok0000001'') = Some (Some 100)"
    using c0 p0 by simp
  have r1: "map_option ctx_parent_msg_id (contexts st' ''tok0000003'') = Some (Some 100)"
    using c1 by auto
  have "(case approve ''tok0000001'' (Some 100) 1 9 ''rev00001'' st of
         Inl err \<Rightarrow> False
       | Inr st0 \<Rightarrow>
           map_option ctx_parent_msg_id (contexts st0 ''tok0000001'') = Some (Some 100) \<and>
           (case followups [f1, f2] ''tok0000001'' st0 of
              None \<Rightarrow> False
            | Some (tok, st') \<Rightarrow> tok = ''tok0000003'' \<and>
                 map_option ctx_parent_msg_id (contexts st' ''tok0000003'') = Some (Some 100)))"
    unfolding ap fu sum.case option.case prod.case using r0 r1 by blast
  then show ?thesis
    unfolding Let_def st_def dA_def f1_def f2_def .
qed

end
